theory Spec2Isabelle
  imports Main "HOL-Library.AList" "HOL-Library.Multiset" "HOL-Library.Char_ord"
    "HOL-Library.List_Lexorder" "HOL-Library.Product_Lexorder"
begin

section \<open>JavaScript values used by \<open>src/utils.ts\<close>\<close>

text \<open>
  Strings are lists of characters. A \<^typ>\<open>char\<close> is one code unit of the
  JavaScript string, with a value from 0 to 255: the model covers the strings whose code
  units are in that range (ASCII and Latin-1). \<open>toLowerCase\<close> maps \<open>A\<close> to
  \<open>Z\<close> and the capital letters U+00C0 to U+00DE (without the sign U+00D7) to their
  small letters, which are 32 code units above them, and leaves every other code unit of
  the range as it is. A value of type \<open>string | undefined\<close> is a
  \<^typ>\<open>string option\<close>, \<open>undefined\<close> being \<^const>\<open>None\<close>.
\<close>

definition upper_case :: string where
  "upper_case =
     ''ABCDEFGHIJKLMNOPQRSTUVWXYZ'' @
     [CHR 0xC0, CHR 0xC1, CHR 0xC2, CHR 0xC3, CHR 0xC4, CHR 0xC5, CHR 0xC6, CHR 0xC7,
      CHR 0xC8, CHR 0xC9, CHR 0xCA, CHR 0xCB, CHR 0xCC, CHR 0xCD, CHR 0xCE, CHR 0xCF,
      CHR 0xD0, CHR 0xD1, CHR 0xD2, CHR 0xD3, CHR 0xD4, CHR 0xD5, CHR 0xD6,
      CHR 0xD8, CHR 0xD9, CHR 0xDA, CHR 0xDB, CHR 0xDC, CHR 0xDD, CHR 0xDE]"

definition lower_case :: string where
  "lower_case =
     ''abcdefghijklmnopqrstuvwxyz'' @
     [CHR 0xE0, CHR 0xE1, CHR 0xE2, CHR 0xE3, CHR 0xE4, CHR 0xE5, CHR 0xE6, CHR 0xE7,
      CHR 0xE8, CHR 0xE9, CHR 0xEA, CHR 0xEB, CHR 0xEC, CHR 0xED, CHR 0xEE, CHR 0xEF,
      CHR 0xF0, CHR 0xF1, CHR 0xF2, CHR 0xF3, CHR 0xF4, CHR 0xF5, CHR 0xF6,
      CHR 0xF8, CHR 0xF9, CHR 0xFA, CHR 0xFB, CHR 0xFC, CHR 0xFD, CHR 0xFE]"

definition toLowerCase_char :: "char \<Rightarrow> char" where
  "toLowerCase_char c =
     (case map_of (zip upper_case lower_case) c of
        Some l \<Rightarrow> l
      | None \<Rightarrow> c)"

definition toLowerCase :: "string \<Rightarrow> string" where
  "toLowerCase s = map toLowerCase_char s"

text \<open>
  \<open>s.split(sep)\<close> for a separator of one character: the pieces between the
  separators, in order; a string without the separator (also the empty string) is
  its own single piece.
\<close>

fun js_split :: "char \<Rightarrow> string \<Rightarrow> string list" where
  "js_split sep [] = [[]]"
| "js_split sep (c # cs) =
     (if c = sep then [] # js_split sep cs
      else (case js_split sep cs of
              [] \<Rightarrow> [[c]]
            | p # ps \<Rightarrow> (c # p) # ps))"

text \<open>Reading an array element: \<open>undefined\<close> out of range.\<close>

definition js_nth :: "'a list \<Rightarrow> nat \<Rightarrow> 'a option" where
  "js_nth xs i = (if i < length xs then Some (xs ! i) else None)"

text \<open>Truthiness of a \<open>string | undefined\<close>: a non-empty string.\<close>

definition truthy :: "string option \<Rightarrow> bool" where
  "truthy v = (case v of None \<Rightarrow> False | Some s \<Rightarrow> s \<noteq> [])"

text \<open>\<open>a || b\<close> on such values.\<close>

definition js_or :: "string option \<Rightarrow> string option \<Rightarrow> string option" where
  "js_or a b = (if truthy a then a else b)"

text \<open>A \<open>string | undefined\<close> inside a template literal.\<close>

definition template :: "string option \<Rightarrow> string" where
  "template v = (case v of None \<Rightarrow> ''undefined'' | Some s \<Rightarrow> s)"

subsection \<open>Objects as insertion-ordered tables\<close>

text \<open>
  An object with string keys is an association list with distinct keys, in the order
  the keys were created. Writing a property that exists replaces its value in place,
  writing a new one appends it: this is \<^const>\<open>AList.update\<close>. Reading a property
  is \<open>js_get\<close> below. \<open>Object.values\<close> lists the values of the keys that are
  array indices (canonical decimal numerals below \<open>2^32 - 1\<close>) in ascending numeric
  order first, then the values of the other keys in creation order.
\<close>

type_synonym 'v object = "(string \<times> 'v) list"

text \<open>
  \<open>obj[key]\<close> on an object literal: the value of the own property \<open>key\<close>;
  otherwise, for the names that \<open>Object.prototype\<close> defines, the inherited value
  (a function, or the prototype itself for \<open>__proto__\<close>: truthy, and without any
  field of the values of the table); otherwise \<open>undefined\<close>.
\<close>

datatype 'v property = Own 'v | Inherited | Missing

definition Object_prototype_keys :: "string list" where
  "Object_prototype_keys =
     [''constructor'', ''__defineGetter__'', ''__defineSetter__'', ''hasOwnProperty'',
      ''__lookupGetter__'', ''__lookupSetter__'', ''isPrototypeOf'', ''propertyIsEnumerable'',
      ''toString'', ''valueOf'', ''__proto__'', ''toLocaleString'']"

definition js_get :: "'v object \<Rightarrow> string \<Rightarrow> 'v property" where
  "js_get obj key =
     (case map_of obj key of
        Some v \<Rightarrow> Own v
      | None \<Rightarrow> if key \<in> set Object_prototype_keys then Inherited else Missing)"

definition digit_value :: "char \<Rightarrow> nat" where
  "digit_value c = (of_char c :: nat) - 48"

definition is_digit :: "char \<Rightarrow> bool" where
  "is_digit c = (c \<in> set ''0123456789'')"

definition decimal :: "string \<Rightarrow> nat" where
  "decimal s = foldl (\<lambda>n c. 10 * n + digit_value c) 0 s"

definition is_array_index :: "string \<Rightarrow> bool" where
  "is_array_index k =
     (k \<noteq> [] \<and> list_all is_digit k \<and> (k = ''0'' \<or> hd k \<noteq> CHR ''0'')
      \<and> decimal k < 4294967295)"

definition Object_values :: "'v object \<Rightarrow> 'v list" where
  "Object_values obj =
     map snd (sort_key (\<lambda>kv. decimal (fst kv)) (filter (\<lambda>kv. is_array_index (fst kv)) obj)
              @ filter (\<lambda>kv. \<not> is_array_index (fst kv)) obj)"

section \<open>Release rules\<close>

text \<open>
  A rule \<open>{type, release, section, breaking}\<close>. The entries of the default table
  carry no \<open>breaking\<close> field and need not carry \<open>release\<close> or \<open>section\<close>,
  so these three fields are optional.
\<close>

record release_rule =
  type :: string
  release :: "string option"
  section' :: "string option"
  breaking :: "bool option"

text \<open>What \<open>core.debug\<close> and \<open>core.warning\<close> were called with, in call order.\<close>

datatype diagnostic = Debug string | Warning string

text \<open>
  \<open>defaultChangelogRules\<close> (\<open>./defaults\<close>) and \<open>DEFAULT_RELEASE_TYPES\<close>
  (\<open>@semantic-release/commit-analyzer\<close>) are not among the sources; every
  function below takes them as the parameters \<open>defaults\<close> and \<open>types\<close>.
\<close>

text \<open>
  The callback of \<open>.filter\<close> in \<open>mapCustomReleaseRules\<close> (lines 101-129): the
  diagnostics it emits for one rule and whether it keeps the rule. The test before the
  debug messages is on \<open>customReleaseRule.length\<close>, the length of the rule's string.
\<close>

definition filter_customReleaseRule ::
  "release_rule object \<Rightarrow> string list \<Rightarrow> string \<Rightarrow> diagnostic list \<times> bool" where
  "filter_customReleaseRule defaults types customReleaseRule =
     (let parts = js_split CHR '':'' customReleaseRule in
      if length parts < 2 then
        ([Warning (customReleaseRule @ '' is not a valid custom release definition.'')], False)
      else
        let defaultRule = js_get defaults (toLowerCase (parts ! 0));
            noted =
              (if length customReleaseRule \<noteq> 3 then
                 [Debug (customReleaseRule @ '' doesn't mention the section for the changelog.''),
                  Debug (case defaultRule of
                           Own d \<Rightarrow> ''Default section ('' @ template (section' d)
                                      @ '') will be used instead.''
                         | Inherited \<Rightarrow>
                             ''Default section ('' @ template None @ '') will be used instead.''
                         | Missing \<Rightarrow>
                             ''The commits matching this rule won't be included in the changelog.'')]
               else [])
        in if parts ! 1 \<notin> set types then
             (noted @ [Warning (parts ! 1 @ '' is not a valid release type.'')], False)
           else (noted, True))"

text \<open>
  The callback of \<open>.map\<close> (lines 130-166): the destructuring
  \<open>[type, release, section] = customReleaseRule.split(':')\<close> and the two rules.
  \<open>split\<close> returns at least one piece, so \<open>type\<close> is always a string and
  the branch for no piece is never taken; \<open>release\<close> and \<open>section\<close> are
  \<open>undefined\<close> when the piece is missing. \<open>defaultRule?.section\<close> is the
  section of an own entry and \<open>undefined\<close> otherwise.
\<close>

definition map_customReleaseRule :: "release_rule object \<Rightarrow> string \<Rightarrow> release_rule list" where
  "map_customReleaseRule defaults customReleaseRule =
     (let parts = js_split CHR '':'' customReleaseRule in
      case parts of
        [] \<Rightarrow> []
      | ty # _ \<Rightarrow>
          let defaultRule = js_get defaults (toLowerCase ty);
              sec = js_or (js_nth parts 2)
                          (case defaultRule of
                             Own d \<Rightarrow> section' d
                           | Inherited \<Rightarrow> None
                           | Missing \<Rightarrow> None)
          in [\<lparr>type = ty, release = Some ''major'', section' = sec, breaking = Some True\<rparr>,
              \<lparr>type = ty, release = js_nth parts 1, section' = sec, breaking = Some False\<rparr>])"

text \<open>
  \<open>mapCustomReleaseRules\<close> (lines 95-168): the diagnostics of the filter pass, and
  the returned list \<open>.split(',').filter(...).map(...).flat()\<close>.
\<close>

definition mapCustomReleaseRules ::
  "release_rule object \<Rightarrow> string list \<Rightarrow> string \<Rightarrow> diagnostic list \<times> release_rule list" where
  "mapCustomReleaseRules defaults types customReleaseTypes =
     (let rules = js_split CHR '','' customReleaseTypes in
      (concat (map (\<lambda>r. fst (filter_customReleaseRule defaults types r)) rules),
       concat (map (map_customReleaseRule defaults)
                   (filter (\<lambda>r. snd (filter_customReleaseRule defaults types r)) rules))))"

text \<open>
  \<open>mergeWithDefaultChangelogRules\<close> (lines 170-182). \<open>mergedRules\<close> is the
  \<open>reduce\<close>: starting from a copy of the default table, each rule is written under
  the key \<open>curr.type\<close>.
\<close>

definition mergedRules :: "release_rule object \<Rightarrow> release_rule list \<Rightarrow> release_rule object" where
  "mergedRules defaults mappedReleaseRules =
     foldl (\<lambda>acc curr. AList.update (type curr) curr acc) defaults mappedReleaseRules"

definition mergeWithDefaultChangelogRules ::
  "release_rule object \<Rightarrow> release_rule list \<Rightarrow> release_rule list" where
  "mergeWithDefaultChangelogRules defaults mappedReleaseRules =
     filter (\<lambda>rule. truthy (section' rule))
            (Object_values (mergedRules defaults mappedReleaseRules))"

text \<open>
  A sample configuration, used to run the functions on concrete inputs: some entries
  of a default table and the release types \<open>major\<close> ... \<open>prerelease\<close>.
\<close>

definition sample_defaults :: "release_rule object" where
  "sample_defaults =
     [(''feat'', \<lparr>type = ''feat'', release = None, section' = Some ''Features'', breaking = None\<rparr>),
      (''fix'', \<lparr>type = ''fix'', release = None, section' = Some ''Bug Fixes'', breaking = None\<rparr>),
      (''docs'', \<lparr>type = ''docs'', release = None, section' = Some ''Documentation'', breaking = None\<rparr>),
      (''build'', \<lparr>type = ''build'', release = None, section' = Some ''Build Systems'', breaking = None\<rparr>)]"

definition sample_types :: "string list" where
  "sample_types =
     [''major'', ''premajor'', ''minor'', ''preminor'', ''patch'', ''prepatch'', ''prerelease'']"

section \<open>Semantic versions\<close>

text \<open>
  Modelled from the spec: the package \<open>semver\<close>, whose \<open>valid\<close>, \<open>prerelease\<close>
  and \<open>rcompare\<close> the source imports, is not among the sources. The spec names the
  format \<open>MAJOR.MINOR.PATCH[-PRERELEASE][+BUILD]\<close> and the standard precedence (major,
  minor, patch, then prerelease identifiers; build metadata ignored; a prerelease below
  its release). The grammar and the comparison below are those of Semantic Versioning
  2.0.0 as the package reads them in its strict mode: an optional leading \<open>v\<close>, no
  leading zeros in numbers, at most 256 characters, numbers up to \<open>2^53 - 1\<close>.
  Numeric identifiers are compared as natural numbers (the package compares them as
  doubles, which is the same below \<open>2^53\<close>).
\<close>

datatype pre_identifier = Numeric nat | Alphanumeric string

record SemVer =
  major :: nat
  minor :: nat
  patch :: nat
  pre :: "pre_identifier list"
  build :: "string list"

definition MAX_LENGTH :: nat where
  "MAX_LENGTH = 256"

definition MAX_SAFE_INTEGER :: nat where
  "MAX_SAFE_INTEGER = 9007199254740991"

definition is_identifier_char :: "char \<Rightarrow> bool" where
  "is_identifier_char c =
     (c \<in> set ''0123456789abcdefghijklmnopqrstuvwxyzABCDEFGHIJKLMNOPQRSTUVWXYZ-'')"

text \<open>A numeric identifier: \<open>0\<close>, or digits that do not start with \<open>0\<close>.\<close>

definition parse_numeric :: "string \<Rightarrow> nat option" where
  "parse_numeric s =
     (if s \<noteq> [] \<and> list_all is_digit s \<and> (s = ''0'' \<or> hd s \<noteq> CHR ''0'')
      then Some (decimal s) else None)"

definition parse_main :: "string \<Rightarrow> nat option" where
  "parse_main s =
     (case parse_numeric s of
        None \<Rightarrow> None
      | Some n \<Rightarrow> if n \<le> MAX_SAFE_INTEGER then Some n else None)"

definition parse_prerelease_identifier :: "string \<Rightarrow> pre_identifier option" where
  "parse_prerelease_identifier s =
     (if s = [] \<or> \<not> list_all is_identifier_char s then None
      else if list_all is_digit s then map_option Numeric (parse_numeric s)
      else Some (Alphanumeric s))"

definition parse_build_identifier :: "string \<Rightarrow> string option" where
  "parse_build_identifier s =
     (if s \<noteq> [] \<and> list_all is_identifier_char s then Some s else None)"

text \<open>All elements of a list of optional values, if none is missing.\<close>

fun sequence :: "'a option list \<Rightarrow> 'a list option" where
  "sequence [] = Some []"
| "sequence (x # xs) =
     (case x of
        None \<Rightarrow> None
      | Some y \<Rightarrow> (case sequence xs of None \<Rightarrow> None | Some ys \<Rightarrow> Some (y # ys)))"

text \<open>The part before the first \<open>c\<close>, and the part after it if there is a \<open>c\<close>.\<close>

definition split_first :: "char \<Rightarrow> string \<Rightarrow> string \<times> string option" where
  "split_first c s =
     (takeWhile (\<lambda>x. x \<noteq> c) s,
      case dropWhile (\<lambda>x. x \<noteq> c) s of [] \<Rightarrow> None | _ # rest \<Rightarrow> Some rest)"

definition parse :: "string \<Rightarrow> SemVer option" where
  "parse version =
     (if length version > MAX_LENGTH then None
      else
        let plain = (case version of c # cs \<Rightarrow> if c = CHR ''v'' then cs else version | [] \<Rightarrow> []);
            (core, build_part) = split_first CHR ''+'' plain;
            (main, pre_part) = split_first CHR ''-'' core
        in case (map parse_main (js_split CHR ''.'' main),
                 case pre_part of
                   None \<Rightarrow> Some []
                 | Some p \<Rightarrow> sequence (map parse_prerelease_identifier (js_split CHR ''.'' p)),
                 case build_part of
                   None \<Rightarrow> Some []
                 | Some b \<Rightarrow> sequence (map parse_build_identifier (js_split CHR ''.'' b))) of
             ([Some ma, Some mi, Some pa], Some ps, Some bs) \<Rightarrow>
               Some \<lparr>major = ma, minor = mi, patch = pa, pre = ps, build = bs\<rparr>
           | _ \<Rightarrow> None)"

text \<open>
  Modelled from the spec: \<open>valid\<close> of the package \<open>semver\<close>. \<open>valid(v)\<close>
  is the normalised version or \<open>null\<close>; the source only tests it, so the model is
  the test.
\<close>

definition valid :: "string \<Rightarrow> bool" where
  "valid version = (parse version \<noteq> None)"

text \<open>
  Modelled from the spec: \<open>prerelease\<close> of the package \<open>semver\<close>. \<open>prerelease(v)\<close>
  is the list of prerelease identifiers, \<open>null\<close> when the version has none or is not
  valid.
\<close>

definition prerelease :: "string \<Rightarrow> pre_identifier list option" where
  "prerelease version =
     (case parse version of
        None \<Rightarrow> None
      | Some v \<Rightarrow> if pre v = [] then None else Some (pre v))"

definition compareNumbers :: "nat \<Rightarrow> nat \<Rightarrow> int" where
  "compareNumbers a b = (if a = b then 0 else if a < b then -1 else 1)"

fun compareIdentifiers :: "pre_identifier \<Rightarrow> pre_identifier \<Rightarrow> int" where
  "compareIdentifiers (Numeric a) (Numeric b) = compareNumbers a b"
| "compareIdentifiers (Numeric a) (Alphanumeric b) = -1"
| "compareIdentifiers (Alphanumeric a) (Numeric b) = 1"
| "compareIdentifiers (Alphanumeric a) (Alphanumeric b) =
     (if a = b then 0 else if a < b then -1 else 1)"

definition compareMain :: "SemVer \<Rightarrow> SemVer \<Rightarrow> int" where
  "compareMain a b =
     (if compareNumbers (major a) (major b) \<noteq> 0 then compareNumbers (major a) (major b)
      else if compareNumbers (minor a) (minor b) \<noteq> 0 then compareNumbers (minor a) (minor b)
      else compareNumbers (patch a) (patch b))"

fun comparePre_loop :: "pre_identifier list \<Rightarrow> pre_identifier list \<Rightarrow> int" where
  "comparePre_loop [] [] = 0"
| "comparePre_loop (x # xs) [] = 1"
| "comparePre_loop [] (y # ys) = -1"
| "comparePre_loop (x # xs) (y # ys) =
     (if x = y then comparePre_loop xs ys else compareIdentifiers x y)"

definition comparePre :: "SemVer \<Rightarrow> SemVer \<Rightarrow> int" where
  "comparePre a b =
     (if pre a \<noteq> [] \<and> pre b = [] then -1
      else if pre a = [] \<and> pre b \<noteq> [] then 1
      else if pre a = [] \<and> pre b = [] then 0
      else comparePre_loop (pre a) (pre b))"

definition compare :: "SemVer \<Rightarrow> SemVer \<Rightarrow> int" where
  "compare a b = (if compareMain a b \<noteq> 0 then compareMain a b else comparePre a b)"

text \<open>What a JavaScript call can throw here.\<close>

datatype js_error = TypeError | SyntaxError

text \<open>
  Modelled from the spec: \<open>rcompare\<close> of the package \<open>semver\<close>. \<open>rcompare(a, b)\<close>
  is \<open>compare(b, a)\<close>; a version that is not valid throws.
\<close>

definition rcompare :: "string \<Rightarrow> string \<Rightarrow> js_error + int" where
  "rcompare a b =
     (case (parse b, parse a) of
        (Some vb, Some va) \<Rightarrow> Inr (compare vb va)
      | _ \<Rightarrow> Inl TypeError)"

text \<open>
  The precedence of Semantic Versioning as a key in a linear order, for stating the
  order of a sorted list: major, minor and patch numerically, then the prerelease, where
  a version without prerelease is above every version with one, identifiers are compared
  from the left, a numeric identifier is below an alphanumeric one, numeric ones compare
  as numbers and alphanumeric ones as ASCII strings, and a longer list is above its
  prefix. The build metadata is not part of the key.
\<close>

fun identifier_key :: "pre_identifier \<Rightarrow> bool \<times> nat \<times> string" where
  "identifier_key (Numeric n) = (False, n, [])"
| "identifier_key (Alphanumeric s) = (True, 0, s)"

definition precedence :: "SemVer \<Rightarrow> nat \<times> nat \<times> nat \<times> bool \<times> (bool \<times> nat \<times> string) list" where
  "precedence v = (major v, minor v, patch v, pre v = [], map identifier_key (pre v))"

section \<open>Tags\<close>

record commit_ref =
  sha :: string

record tag =
  name :: string
  commit :: commit_ref

text \<open>
  \<open>array.sort(compare)\<close>: the sort is stable, so for a comparator that is consistent
  its result is determined: the elements in an order in which \<open>compare(a, b) \<le> 0\<close>
  for \<open>a\<close> before \<open>b\<close>, equal elements in their input order. This is what insertion
  from the right computes. An exception thrown by the comparator propagates.
\<close>

fun insert_by :: "('a \<Rightarrow> 'a \<Rightarrow> js_error + int) \<Rightarrow> 'a \<Rightarrow> 'a list \<Rightarrow> js_error + 'a list" where
  "insert_by cmp x [] = Inr [x]"
| "insert_by cmp x (y # ys) =
     (case cmp x y of
        Inl e \<Rightarrow> Inl e
      | Inr c \<Rightarrow>
          if c \<le> 0 then Inr (x # y # ys)
          else (case insert_by cmp x ys of Inl e \<Rightarrow> Inl e | Inr zs \<Rightarrow> Inr (y # zs)))"

fun js_sort :: "('a \<Rightarrow> 'a \<Rightarrow> js_error + int) \<Rightarrow> 'a list \<Rightarrow> js_error + 'a list" where
  "js_sort cmp [] = Inr []"
| "js_sort cmp (x # xs) =
     (case js_sort cmp xs of Inl e \<Rightarrow> Inl e | Inr ys \<Rightarrow> insert_by cmp x ys)"

text \<open>
  \<open>getValidTags\<close> (lines 11-32). \<open>tags\<close> is what \<open>listTags\<close> resolved to, and
  \<open>strip\<close> is the caller's \<open>prefixRegex\<close> as the function
  \<open>s \<mapsto> s.replace(prefixRegex, '')\<close>. The result is the debug messages and the
  returned list. The message for an invalid tag interpolates the tag object itself.
\<close>

definition getValidTags ::
  "(string \<Rightarrow> string) \<Rightarrow> tag list \<Rightarrow> js_error + diagnostic list \<times> tag list" where
  "getValidTags strip tags =
     (let invalidTags = filter (\<lambda>tag. \<not> valid (strip (name tag))) tags;
          sorted_tags = js_sort (\<lambda>a b. rcompare (strip (name a)) (strip (name b)))
                                (filter (\<lambda>tag. valid (strip (name tag))) tags)
      in case sorted_tags of
           Inl e \<Rightarrow> Inl e
         | Inr validTags \<Rightarrow>
             Inr (map (\<lambda>tag. Debug ''Found Invalid Tag: [object Object].'') invalidTags
                  @ map (\<lambda>tag. Debug (''Found Valid Tag: '' @ name tag @ ''.'')) validTags,
                  validTags))"

text \<open>\<open>getLatestTag\<close> (lines 70-83).\<close>

definition getLatestTag :: "tag list \<Rightarrow> (string \<Rightarrow> string) \<Rightarrow> string \<Rightarrow> tag" where
  "getLatestTag tags strip tagPrefix =
     (case find (\<lambda>tag. prerelease (strip (name tag)) = None) tags of
        Some tag \<Rightarrow> tag
      | None \<Rightarrow> \<lparr>name = tagPrefix @ ''0.0.0'', commit = \<lparr>sha = ''HEAD''\<rparr>\<rparr>)"

section \<open>Regular expressions\<close>

text \<open>
  \<open>new RegExp(source)\<close> throws a \<open>SyntaxError\<close> or returns an expression, and
  \<open>string.match(source)\<close> with a string argument builds the expression the same way.
  The source uses an expression in one way only: whether it matches a string
  (\<open>message.match(re)\<close> and \<open>name.match(identifier)\<close> as truth values, on an
  expression built for that one call, so that the flag \<open>g\<close> and the index where the
  last match ended have no effect). An expression is therefore the predicate "a match
  exists in this string", and the constructor is a function from sources to an error or
  such a predicate. \<open>getScopedCommits\<close> and \<open>getLatestPrereleaseTag\<close> take the
  constructor as a parameter named \<open>RegExp\<close>: what is proved of them for every such
  function holds for the constructor of JavaScript, whatever the pattern language is.
\<close>

type_synonym regexp = "string \<Rightarrow> bool"

type_synonym regexp_constructor = "string \<Rightarrow> js_error + regexp"

subsection \<open>A fragment of the pattern language\<close>

text \<open>
  What the constructor does is written out for a fragment of the pattern language:
  literal characters, \<open>.\<close>, the anchors \<open>^\<close> and \<open>$\<close>, groups \<open>(...)\<close> and
  \<open>(?:...)\<close>, alternation, the quantifiers \<open>*\<close>, \<open>+\<close>, \<open>?\<close> (also lazy),
  character classes with ranges, the class escapes \<open>\d \D \w \W \s \S\<close>, the control
  escapes \<open>\t \n \v \f \r\<close> and escaped punctuation. Compiling a source has three
  outcomes: an expression tree; \<open>Invalid\<close>, where JavaScript throws a
  \<open>SyntaxError\<close>; and \<open>Outside\<close>, for a source that uses anything else (braces,
  backreferences, lookaround, named groups, word boundaries, other letter and digit
  escapes), about which the fragment says nothing. The fragment is used for the examples
  and for what is said about patterns of plain characters; no property of a pattern
  outside it is derived from it.
\<close>

datatype rejection = Invalid | Outside

datatype class_item = CChar char | CRange char char | CEscape char

datatype re =
    Lit char
  | Dot
  | Class bool "class_item list"
  | Bol
  | Eol
  | Epsilon
  | Cat re re
  | Alt re re
  | ZeroOrMore re
  | OneOrMore re
  | Optional re

definition is_word :: "char \<Rightarrow> bool" where
  "is_word c =
     (c \<in> set ''abcdefghijklmnopqrstuvwxyzABCDEFGHIJKLMNOPQRSTUVWXYZ0123456789_'')"

text \<open>
  The characters \<open>\s\<close> matches, among the code units up to 255: the white space
  \<open>TAB\<close>, \<open>VT\<close>, \<open>FF\<close>, \<open>SP\<close>, \<open>NBSP\<close> (U+00A0) and the line
  terminators \<open>LF\<close>, \<open>CR\<close>.
\<close>

definition is_space :: "char \<Rightarrow> bool" where
  "is_space c =
     (c \<in> set [CHR 0x09, CHR 0x0A, CHR 0x0B, CHR 0x0C, CHR 0x0D, CHR '' '', CHR 0xA0])"

definition is_line_terminator :: "char \<Rightarrow> bool" where
  "is_line_terminator c = (c = CHR 0x0A \<or> c = CHR 0x0D)"

definition is_letter :: "char \<Rightarrow> bool" where
  "is_letter c = (c \<in> set ''abcdefghijklmnopqrstuvwxyzABCDEFGHIJKLMNOPQRSTUVWXYZ'')"

text \<open>The class escapes, by their letter.\<close>

definition escape_class :: "char \<Rightarrow> char \<Rightarrow> bool" where
  "escape_class e c =
     (if e = CHR ''d'' then is_digit c
      else if e = CHR ''D'' then \<not> is_digit c
      else if e = CHR ''w'' then is_word c
      else if e = CHR ''W'' then \<not> is_word c
      else if e = CHR ''s'' then is_space c
      else \<not> is_space c)"

fun item_matches :: "class_item \<Rightarrow> char \<Rightarrow> bool" where
  "item_matches (CChar a) c = (c = a)"
| "item_matches (CRange a b) c =
     ((of_char a :: nat) \<le> of_char c \<and> (of_char c :: nat) \<le> of_char b)"
| "item_matches (CEscape e) c = escape_class e c"

text \<open>
  Matching in continuation style. \<open>rmatch r start s k\<close>: \<open>r\<close> matches a prefix of
  the rest \<open>s\<close> of the input such that \<open>k\<close> holds of what follows; \<open>start\<close> says
  that \<open>s\<close> is the whole input. Each round of a repetition after those required must
  consume a character, so the rest of the input bounds the number of rounds.
\<close>

fun repeat ::
  "(bool \<Rightarrow> string \<Rightarrow> (bool \<Rightarrow> string \<Rightarrow> bool) \<Rightarrow> bool) \<Rightarrow> string \<Rightarrow>
   bool \<Rightarrow> string \<Rightarrow> (bool \<Rightarrow> string \<Rightarrow> bool) \<Rightarrow> bool" where
  "repeat m [] start s k = k start s"
| "repeat m (_ # fuel) start s k =
     (k start s \<or> m start s (\<lambda>start' s'. length s' < length s \<and> repeat m fuel start' s' k))"

definition consume :: "(char \<Rightarrow> bool) \<Rightarrow> string \<Rightarrow> (bool \<Rightarrow> string \<Rightarrow> bool) \<Rightarrow> bool" where
  "consume accepts s k = (case s of [] \<Rightarrow> False | c # cs \<Rightarrow> accepts c \<and> k False cs)"

primrec rmatch :: "re \<Rightarrow> bool \<Rightarrow> string \<Rightarrow> (bool \<Rightarrow> string \<Rightarrow> bool) \<Rightarrow> bool" where
  "rmatch (Lit a) = (\<lambda>start s k. consume (\<lambda>c. c = a) s k)"
| "rmatch Dot = (\<lambda>start s k. consume (\<lambda>c. \<not> is_line_terminator c) s k)"
| "rmatch (Class negated items) =
     (\<lambda>start s k. consume (\<lambda>c. list_ex (\<lambda>i. item_matches i c) items \<noteq> negated) s k)"
| "rmatch Bol = (\<lambda>start s k. start \<and> k start s)"
| "rmatch Eol = (\<lambda>start s k. s = [] \<and> k start s)"
| "rmatch Epsilon = (\<lambda>start s k. k start s)"
| "rmatch (Cat r1 r2) = (\<lambda>start s k. rmatch r1 start s (\<lambda>start' s'. rmatch r2 start' s' k))"
| "rmatch (Alt r1 r2) = (\<lambda>start s k. rmatch r1 start s k \<or> rmatch r2 start s k)"
| "rmatch (ZeroOrMore r) = (\<lambda>start s k. repeat (rmatch r) s start s k)"
| "rmatch (OneOrMore r) =
     (\<lambda>start s k. rmatch r start s (\<lambda>start' s'. repeat (rmatch r) s' start' s' k))"
| "rmatch (Optional r) = (\<lambda>start s k. k start s \<or> rmatch r start s k)"

text \<open>A match exists somewhere in the input: at its start, or at a later position.\<close>

fun match_later :: "re \<Rightarrow> string \<Rightarrow> bool" where
  "match_later r [] = False"
| "match_later r (c # cs) = (rmatch r False cs (\<lambda>_ _. True) \<or> match_later r cs)"

definition re_test :: "re \<Rightarrow> string \<Rightarrow> bool" where
  "re_test r s = (rmatch r True s (\<lambda>_ _. True) \<or> match_later r s)"

subsubsection \<open>Compiling a source\<close>

text \<open>
  The source is read from the left. A frame holds the alternatives completed so far in
  the group being read, the concatenation completed in the current alternative, and the
  last term, which the next character may quantify. \<open>Atom\<close>: may be quantified;
  \<open>Quantified\<close>: may be made lazy by \<open>?\<close>; \<open>Closed\<close>: nothing may follow it as
  a quantifier (an anchor, or a quantifier already made lazy).
\<close>

datatype last_term = NoTerm | Atom re | Quantified re | Closed re

datatype frame = Frame "re option" re last_term

datatype pending = PNone | PChar char | PDash char

datatype mode =
    Normal
  | Escaped
  | GroupOpen
  | GroupQuestion
  | ClassOpen
  | ClassBody bool "class_item list" pending
  | ClassEscaped bool "class_item list" pending

fun flush :: "re \<Rightarrow> last_term \<Rightarrow> re" where
  "flush d NoTerm = d"
| "flush d (Atom r) = Cat d r"
| "flush d (Quantified r) = Cat d r"
| "flush d (Closed r) = Cat d r"

fun close_frame :: "frame \<Rightarrow> re" where
  "close_frame (Frame None d l) = flush d l"
| "close_frame (Frame (Some a) d l) = Alt a (flush d l)"

fun push_term :: "last_term \<Rightarrow> frame list \<Rightarrow> rejection + mode \<times> frame list" where
  "push_term t [] = Inl Invalid"
| "push_term t (Frame a d l # fs) = Inr (Normal, Frame a (flush d l) t # fs)"

fun quantify :: "(re \<Rightarrow> re) \<Rightarrow> frame list \<Rightarrow> rejection + mode \<times> frame list" where
  "quantify q (Frame a d (Atom r) # fs) = Inr (Normal, Frame a d (Quantified (q r)) # fs)"
| "quantify q fs = Inl Invalid"

fun question :: "frame list \<Rightarrow> rejection + mode \<times> frame list" where
  "question (Frame a d (Atom r) # fs) = Inr (Normal, Frame a d (Quantified (Optional r)) # fs)"
| "question (Frame a d (Quantified r) # fs) = Inr (Normal, Frame a d (Closed r) # fs)"
| "question fs = Inl Invalid"

definition normal_step :: "frame list \<Rightarrow> char \<Rightarrow> rejection + mode \<times> frame list" where
  "normal_step fs c =
     (if c = CHR 0x5C then Inr (Escaped, fs)
      else if c = CHR ''('' then Inr (GroupOpen, Frame None Epsilon NoTerm # fs)
      else if c = CHR '')'' then
        (case fs of
           f # g # gs \<Rightarrow> push_term (Atom (close_frame f)) (g # gs)
         | _ \<Rightarrow> Inl Invalid)
      else if c = CHR ''['' then Inr (ClassOpen, fs)
      else if c = CHR ''|'' then
        (case fs of
           [] \<Rightarrow> Inl Invalid
         | f # gs \<Rightarrow> Inr (Normal, Frame (Some (close_frame f)) Epsilon NoTerm # gs))
      else if c = CHR ''*'' then quantify ZeroOrMore fs
      else if c = CHR ''+'' then quantify OneOrMore fs
      else if c = CHR ''?'' then question fs
      else if c = CHR ''^'' then push_term (Closed Bol) fs
      else if c = CHR ''$'' then push_term (Closed Eol) fs
      else if c = CHR ''.'' then push_term (Atom Dot) fs
      else if c = CHR ''{'' \<or> c = CHR ''}'' then Inl Outside
      else push_term (Atom (Lit c)) fs)"

text \<open>The character an escape stands for, outside and inside a class.\<close>

definition control_escape :: "char \<Rightarrow> char option" where
  "control_escape c =
     (if c = CHR ''t'' then Some (CHR 0x09)
      else if c = CHR ''n'' then Some (CHR 0x0A)
      else if c = CHR ''v'' then Some (CHR 0x0B)
      else if c = CHR ''f'' then Some (CHR 0x0C)
      else if c = CHR ''r'' then Some (CHR 0x0D)
      else if is_letter c \<or> is_digit c then None
      else Some c)"

definition escaped_step :: "frame list \<Rightarrow> char \<Rightarrow> rejection + mode \<times> frame list" where
  "escaped_step fs c =
     (if c \<in> set ''dDwWsS'' then push_term (Atom (Class False [CEscape c])) fs
      else (case control_escape c of
              None \<Rightarrow> Inl Outside
            | Some x \<Rightarrow> push_term (Atom (Lit x)) fs))"

fun pending_items :: "pending \<Rightarrow> class_item list" where
  "pending_items PNone = []"
| "pending_items (PChar a) = [CChar a]"
| "pending_items (PDash a) = [CChar a, CChar CHR ''-'']"

text \<open>A character of a class that is not the range dash.\<close>

fun class_atom ::
  "bool \<Rightarrow> class_item list \<Rightarrow> pending \<Rightarrow> frame list \<Rightarrow> char \<Rightarrow> rejection + mode \<times> frame list" where
  "class_atom neg items PNone fs c = Inr (ClassBody neg items (PChar c), fs)"
| "class_atom neg items (PChar a) fs c = Inr (ClassBody neg (items @ [CChar a]) (PChar c), fs)"
| "class_atom neg items (PDash a) fs c =
     (if (of_char a :: nat) \<le> of_char c then Inr (ClassBody neg (items @ [CRange a c]) PNone, fs)
      else Inl Invalid)"

definition class_step ::
  "bool \<Rightarrow> class_item list \<Rightarrow> pending \<Rightarrow> frame list \<Rightarrow> char \<Rightarrow> rejection + mode \<times> frame list" where
  "class_step neg items p fs c =
     (if c = CHR '']'' then push_term (Atom (Class neg (items @ pending_items p))) fs
      else if c = CHR 0x5C then Inr (ClassEscaped neg items p, fs)
      else if c = CHR ''-'' then
        (case p of
           PChar a \<Rightarrow> Inr (ClassBody neg items (PDash a), fs)
         | _ \<Rightarrow> class_atom neg items p fs c)
      else class_atom neg items p fs c)"

definition class_escaped_step ::
  "bool \<Rightarrow> class_item list \<Rightarrow> pending \<Rightarrow> frame list \<Rightarrow> char \<Rightarrow> rejection + mode \<times> frame list" where
  "class_escaped_step neg items p fs c =
     (if c \<in> set ''dDwWsS'' then
        (case p of
           PDash a \<Rightarrow> Inl Outside
         | _ \<Rightarrow> Inr (ClassBody neg (items @ pending_items p @ [CEscape c]) PNone, fs))
      else if c = CHR ''b'' then class_atom neg items p fs (CHR 0x08)
      else (case control_escape c of
              None \<Rightarrow> Inl Outside
            | Some x \<Rightarrow> class_atom neg items p fs x))"

fun step :: "mode \<times> frame list \<Rightarrow> char \<Rightarrow> rejection + mode \<times> frame list" where
  "step (Normal, fs) c = normal_step fs c"
| "step (Escaped, fs) c = escaped_step fs c"
| "step (GroupOpen, fs) c = (if c = CHR ''?'' then Inr (GroupQuestion, fs) else normal_step fs c)"
| "step (GroupQuestion, fs) c = (if c = CHR '':'' then Inr (Normal, fs) else Inl Outside)"
| "step (ClassOpen, fs) c =
     (if c = CHR ''^'' then Inr (ClassBody True [] PNone, fs) else class_step False [] PNone fs c)"
| "step (ClassBody neg items p, fs) c = class_step neg items p fs c"
| "step (ClassEscaped neg items p, fs) c = class_escaped_step neg items p fs c"

fun steps :: "mode \<times> frame list \<Rightarrow> string \<Rightarrow> rejection + mode \<times> frame list" where
  "steps st [] = Inr st"
| "steps st (c # cs) = (case step st c of Inl e \<Rightarrow> Inl e | Inr st' \<Rightarrow> steps st' cs)"

fun finish :: "mode \<times> frame list \<Rightarrow> rejection + re" where
  "finish (Normal, [f]) = Inr (close_frame f)"
| "finish st = Inl Invalid"

definition compile :: "string \<Rightarrow> rejection + re" where
  "compile source =
     (case steps (Normal, [Frame None Epsilon NoTerm]) source of
        Inl e \<Rightarrow> Inl e
      | Inr st \<Rightarrow> finish st)"

section \<open>Commits and prerelease tags\<close>

record commit_info =
  message :: string
  hash :: string

text \<open>
  The source of the expression built in \<open>getScopedCommits\<close> (lines 51-56): the
  two string literals of the source around the scope.
\<close>

definition scope_prefix :: string where
  "scope_prefix =
     ''^(build|chore|ci|docs|feat|fix|perf|refactor|revert|style|test)'' @ [CHR 0x5C, CHR ''('']"

definition scope_suffix :: string where
  "scope_suffix = [CHR 0x5C, CHR '')'', CHR 0x5C] @ '': ['' @ [CHR 0x5C] @ ''w ]+''"

definition scope_pattern :: "string \<Rightarrow> string" where
  "scope_pattern scope = scope_prefix @ scope @ scope_suffix"

text \<open>
  \<open>scopes.some(...)\<close> for one message: the expressions are built scope by scope, up
  to the first scope that matches; a source the constructor rejects throws.
\<close>

fun some_scope :: "regexp_constructor \<Rightarrow> string \<Rightarrow> string list \<Rightarrow> js_error + bool" where
  "some_scope RegExp msg [] = Inr False"
| "some_scope RegExp msg (scope # scopes) =
     (case RegExp (scope_pattern scope) of
        Inl e \<Rightarrow> Inl e
      | Inr re \<Rightarrow> if re msg then Inr True else some_scope RegExp msg scopes)"

text \<open>\<open>getScopedCommits\<close> (lines 45-60): \<open>commits.filter(...)\<close>, commit by commit.\<close>

fun getScopedCommits ::
  "regexp_constructor \<Rightarrow> commit_info list \<Rightarrow> string list \<Rightarrow> js_error + commit_info list" where
  "getScopedCommits RegExp [] scopes = Inr []"
| "getScopedCommits RegExp (c # commits) scopes =
     (case some_scope RegExp (message c) scopes of
        Inl e \<Rightarrow> Inl e
      | Inr keep \<Rightarrow>
          (case getScopedCommits RegExp commits scopes of
             Inl e \<Rightarrow> Inl e
           | Inr rest \<Rightarrow> Inr (if keep then c # rest else rest)))"

text \<open>
  \<open>getLatestPrereleaseTag\<close> (lines 85-93). \<open>name.match(identifier)\<close> builds the
  expression of the string \<open>identifier\<close> on every call of the callback of \<open>find\<close>.
\<close>

fun find_match ::
  "regexp_constructor \<Rightarrow> string \<Rightarrow> (string \<Rightarrow> string) \<Rightarrow> tag list \<Rightarrow> js_error + tag option" where
  "find_match RegExp identifier strip [] = Inr None"
| "find_match RegExp identifier strip (tag # tags) =
     (case RegExp identifier of
        Inl e \<Rightarrow> Inl e
      | Inr re \<Rightarrow>
          if re (strip (name tag)) then Inr (Some tag)
          else find_match RegExp identifier strip tags)"

definition getLatestPrereleaseTag ::
  "regexp_constructor \<Rightarrow> tag list \<Rightarrow> string \<Rightarrow> (string \<Rightarrow> string) \<Rightarrow> js_error + tag option" where
  "getLatestPrereleaseTag RegExp tags identifier strip =
     find_match RegExp identifier strip
       (filter (\<lambda>tag. prerelease (strip (name tag)) \<noteq> None) tags)"

section \<open>Notions used to state the claims\<close>

text \<open>
  A source that the constructor accepts and whose expression matches a string. A
  constructor conforms to the fragment when it throws a \<open>SyntaxError\<close> for the
  sources the fragment finds invalid and, for a source the fragment compiles, returns
  the expression that matches what the compiled tree matches; on the sources outside the
  fragment it may do anything. The constructor of the fragment rejects those sources: it
  is the constructor of the examples.
\<close>

definition matches :: "regexp_constructor \<Rightarrow> string \<Rightarrow> string \<Rightarrow> bool" where
  "matches RegExp source s = (case RegExp source of Inl e \<Rightarrow> False | Inr re \<Rightarrow> re s)"

definition conforms :: "regexp_constructor \<Rightarrow> bool" where
  "conforms RegExp =
     (\<forall>source. (compile source = Inl Invalid \<longrightarrow> RegExp source = Inl SyntaxError)
              \<and> (\<forall>r. compile source = Inr r \<longrightarrow> RegExp source = Inr (re_test r)))"

definition fragment_RegExp :: regexp_constructor where
  "fragment_RegExp source =
     (case compile source of
        Inl rejected \<Rightarrow> Inl SyntaxError
      | Inr r \<Rightarrow> Inr (re_test r))"

text \<open>
  A character that stands for itself in a pattern; the expression a string of such
  characters appends to an expression; the commit types the pattern of
  \<open>getScopedCommits\<close> lists; and the expression that pattern is for a scope of plain
  characters.
\<close>

definition plain :: "char \<Rightarrow> bool" where
  "plain c = (c \<notin> set ([CHR 0x5C] @ ''()[|*+?^$.{}''))"

definition lits :: "re \<Rightarrow> string \<Rightarrow> re" where
  "lits p cs = foldl (\<lambda>r c. Cat r (Lit c)) p cs"

definition commit_types :: "string list" where
  "commit_types = [''build'', ''chore'', ''ci'', ''docs'', ''feat'', ''fix'', ''perf'',
                   ''refactor'', ''revert'', ''style'', ''test'']"

definition types_re :: re where
  "types_re = foldl (\<lambda>a t. Alt a (lits Epsilon t)) (lits Epsilon ''build'') (tl commit_types)"

definition scope_re :: "string \<Rightarrow> re" where
  "scope_re scope =
     Cat (Cat (Cat (Cat (lits (Cat (Cat (Cat Epsilon Bol) types_re) (Lit CHR ''('')) scope)
                        (Lit CHR '')''))
                   (Lit CHR '':''))
              (Lit CHR '' ''))
         (OneOrMore (Class False [CEscape CHR ''w'', CChar CHR '' '']))"

text \<open>
  Sample inputs: the prefix pattern \<open>/^v/\<close> as the function it is on tag names, and
  a tag of a given name.
\<close>

definition strip_v :: "string \<Rightarrow> string" where
  "strip_v s = (case s of [] \<Rightarrow> [] | c # cs \<Rightarrow> if c = CHR ''v'' then cs else s)"

definition sample_tag :: "string \<Rightarrow> tag" where
  "sample_tag n = \<lparr>name = n, commit = \<lparr>sha = ''0000000''\<rparr>\<rparr>"


section \<open>Properties of the release rules\<close>

lemmas rules_eval =
  mapCustomReleaseRules_def filter_customReleaseRule_def map_customReleaseRule_def
  sample_defaults_def sample_types_def toLowerCase_def toLowerCase_char_def upper_case_def
  lower_case_def js_get_def Object_prototype_keys_def js_nth_def js_or_def truthy_def
  template_def Let_def

subsection \<open>Splitting\<close>

lemma js_split_not_Nil [simp]: "js_split sep s \<noteq> []"
  by (induction s) (auto split: list.splits)

lemma js_split_append: "js_split sep (a @ sep # b) = js_split sep a @ js_split sep b"
  by (induction a) (auto split: list.splits)

lemma js_split_no_sep: "sep \<notin> set s \<Longrightarrow> js_split sep s = [s]"
  by (induction s) (auto split: list.splits)

lemma js_split_pieces: "r \<in> set (js_split sep s) \<Longrightarrow> sep \<notin> set r"
  by (induction s arbitrary: r) (auto split: list.splits if_splits)

subsection \<open>The expander\<close>

lemma mapCustomReleaseRules_append:
  "mapCustomReleaseRules d t (a @ CHR '','' # b) =
     (fst (mapCustomReleaseRules d t a) @ fst (mapCustomReleaseRules d t b),
      snd (mapCustomReleaseRules d t a) @ snd (mapCustomReleaseRules d t b))"
  by (simp add: mapCustomReleaseRules_def js_split_append Let_def)

lemma mapCustomReleaseRules_single:
  "CHR '','' \<notin> set r \<Longrightarrow>
   mapCustomReleaseRules d t r =
     (fst (filter_customReleaseRule d t r),
      if snd (filter_customReleaseRule d t r) then map_customReleaseRule d r else [])"
  by (simp add: mapCustomReleaseRules_def js_split_no_sep Let_def)

lemma default_section:
  "(case js_get d k of Own x \<Rightarrow> section' x | Inherited \<Rightarrow> None | Missing \<Rightarrow> None) =
     (case map_of d k of None \<Rightarrow> None | Some x \<Rightarrow> section' x)"
  by (simp add: js_get_def split: option.splits)

lemma kept_iff:
  "snd (filter_customReleaseRule d t r) \<longleftrightarrow>
     2 \<le> length (js_split CHR '':'' r) \<and> js_split CHR '':'' r ! 1 \<in> set t"
  by (auto simp: filter_customReleaseRule_def Let_def)

lemma map_customReleaseRule_parts:
  "2 \<le> length (js_split CHR '':'' r) \<Longrightarrow>
   map_customReleaseRule d r =
     (let p = js_split CHR '':'' r;
          sec = (if 3 \<le> length p \<and> p ! 2 \<noteq> [] then Some (p ! 2)
                 else (case map_of d (toLowerCase (p ! 0)) of None \<Rightarrow> None | Some x \<Rightarrow> section' x))
      in [\<lparr>type = p ! 0, release = Some ''major'', section' = sec, breaking = Some True\<rparr>,
          \<lparr>type = p ! 0, release = Some (p ! 1), section' = sec, breaking = Some False\<rparr>])"
  by (cases "js_split CHR '':'' r")
     (auto simp: map_customReleaseRule_def default_section Let_def js_nth_def js_or_def
           truthy_def split: option.splits)

lemma concat_map_filter_if:
  "concat (map (\<lambda>r. if P r then f r else []) xs) = concat (map f (filter P xs))"
  by (induction xs) auto

lemma mapCustomReleaseRules_concat:
  "snd (mapCustomReleaseRules d t s) =
     concat (map (\<lambda>r. snd (mapCustomReleaseRules d t r)) (js_split CHR '','' s))"
proof -
  let ?keep = "\<lambda>r. snd (filter_customReleaseRule d t r)"
  have "map (\<lambda>r. snd (mapCustomReleaseRules d t r)) (js_split CHR '','' s) =
        map (\<lambda>r. if ?keep r then map_customReleaseRule d r else []) (js_split CHR '','' s)"
    by (rule map_cong [OF refl]) (simp add: mapCustomReleaseRules_single js_split_pieces)
  then have "concat (map (\<lambda>r. snd (mapCustomReleaseRules d t r)) (js_split CHR '','' s)) =
             concat (map (map_customReleaseRule d) (filter ?keep (js_split CHR '','' s)))"
    by (simp only: concat_map_filter_if)
  moreover have "snd (mapCustomReleaseRules d t s) =
                 concat (map (map_customReleaseRule d) (filter ?keep (js_split CHR '','' s)))"
    by (simp add: mapCustomReleaseRules_def Let_def)
  ultimately show ?thesis
    by simp
qed




text \<open>The shape of the expander's output: pairs of one type, the second not breaking.\<close>

lemma map_customReleaseRule_shape:
  "map_customReleaseRule d r = [] \<or>
   (\<exists>m l. map_customReleaseRule d r = [m, l] \<and> type m = type l \<and> breaking l = Some False)"
  by (auto simp: map_customReleaseRule_def Let_def split: list.splits)

lemma find_last_pairs:
  assumes "\<forall>x \<in> set xs. f x = [] \<or> (\<exists>m l. f x = [m, l] \<and> type m = type l \<and> breaking l = Some False)"
    and "find (\<lambda>r. type r = k) (rev (concat (map f xs))) = Some e"
  shows "breaking e = Some False"
  using assms
proof (induction xs rule: rev_induct)
  case Nil
  then show ?case by simp
next
  case (snoc x xs)
  then show ?case
    by (auto split: if_splits)
qed

lemma mapped_rule_survivor:
  assumes "find (\<lambda>r. type r = k) (rev (snd (mapCustomReleaseRules d t s))) = Some e"
  shows "breaking e = Some False"
proof -
  let ?xs = "filter (\<lambda>r. snd (filter_customReleaseRule d t r)) (js_split CHR '','' s)"
  have "snd (mapCustomReleaseRules d t s) = concat (map (map_customReleaseRule d) ?xs)"
    by (simp add: mapCustomReleaseRules_def Let_def)
  with assms have "find (\<lambda>r. type r = k) (rev (concat (map (map_customReleaseRule d) ?xs))) = Some e"
    by simp
  moreover have "\<forall>x \<in> set ?xs. map_customReleaseRule d x = [] \<or>
      (\<exists>m l. map_customReleaseRule d x = [m, l] \<and> type m = type l \<and> breaking l = Some False)"
    using map_customReleaseRule_shape by blast
  ultimately show ?thesis
    by (rule find_last_pairs [rotated])
qed

lemma find_rev_Some:
  "x \<in> set xs \<Longrightarrow> P x \<Longrightarrow> \<exists>e. find P (rev xs) = Some e \<and> e \<in> set xs \<and> P e"
  by (metis find_None_iff find_Some_iff not_Some_eq nth_mem set_rev)

subsection \<open>The merged table\<close>

lemma mergedRules_snoc:
  "mergedRules d (rs @ [r]) = AList.update (type r) r (mergedRules d rs)"
  by (simp add: mergedRules_def)

lemma map_of_mergedRules:
  "map_of (mergedRules d rs) k =
     (case find (\<lambda>r. type r = k) (rev rs) of Some r \<Rightarrow> Some r | None \<Rightarrow> map_of d k)"
proof (induction rs rule: rev_induct)
  case Nil
  show ?case by (simp add: mergedRules_def)
next
  case (snoc r rs)
  then show ?case
    by (simp add: mergedRules_snoc update_conv')
qed

lemma distinct_mergedRules:
  "distinct (map fst d) \<Longrightarrow> distinct (map fst (mergedRules d rs))"
  by (induction rs rule: rev_induct) (simp_all add: mergedRules_def distinct_update)

lemma mset_filter_partition:
  "mset (filter P xs) + mset (filter (\<lambda>x. \<not> P x) xs) = mset xs"
  by (induction xs) auto

lemma mset_Object_values: "mset (Object_values obj) = mset (map snd obj)"
proof -
  let ?P = "\<lambda>kv. is_array_index (fst kv)"
  have "mset (Object_values obj) =
          image_mset snd (mset (filter ?P obj) + mset (filter (\<lambda>x. \<not> ?P x) obj))"
    unfolding Object_values_def by (simp del: mset_filter)
  also have "\<dots> = image_mset snd (mset obj)"
    by (simp only: mset_filter_partition)
  finally show ?thesis
    by simp
qed

lemma set_Object_values: "set (Object_values obj) = snd ` set obj"
proof -
  have "set_mset (mset (Object_values obj)) = set_mset (mset (map snd obj))"
    by (simp only: mset_Object_values)
  then show ?thesis
    by simp
qed

lemma mset_mergeWithDefaultChangelogRules:
  "mset (mergeWithDefaultChangelogRules d rs) =
     filter_mset (\<lambda>e. truthy (section' e)) (mset (map snd (mergedRules d rs)))"
proof -
  have "mset (mergeWithDefaultChangelogRules d rs) =
          filter_mset (\<lambda>e. truthy (section' e)) (mset (Object_values (mergedRules d rs)))"
    by (simp add: mergeWithDefaultChangelogRules_def)
  then show ?thesis
    by (simp only: mset_Object_values)
qed

lemma set_mergeWithDefaultChangelogRules:
  assumes "distinct (map fst d)"
  shows "set (mergeWithDefaultChangelogRules d rs) =
           {e. \<exists>k. map_of (mergedRules d rs) k = Some e \<and> truthy (section' e)}"
proof -
  have dist: "distinct (map fst (mergedRules d rs))"
    using assms by (rule distinct_mergedRules)
  have "snd ` set (mergedRules d rs) = {e. \<exists>k. map_of (mergedRules d rs) k = Some e}"
  proof (intro set_eqI iffI)
    fix e assume "e \<in> snd ` set (mergedRules d rs)"
    then obtain k where "(k, e) \<in> set (mergedRules d rs)" by auto
    with dist have "map_of (mergedRules d rs) k = Some e" by simp
    then show "e \<in> {e. \<exists>k. map_of (mergedRules d rs) k = Some e}" by blast
  next
    fix e assume "e \<in> {e. \<exists>k. map_of (mergedRules d rs) k = Some e}"
    then obtain k where "map_of (mergedRules d rs) k = Some e" by blast
    then have "(k, e) \<in> set (mergedRules d rs)" by (rule map_of_SomeD)
    then show "e \<in> snd ` set (mergedRules d rs)" by force
  qed
  then show ?thesis
    by (auto simp: mergeWithDefaultChangelogRules_def set_Object_values)
qed

section \<open>Claims about the release rules\<close>

text \<open>
  Claim C1, amended. The rules returned for an input are the concatenation, in input
  order, of the rules returned for each of its comma-separated rules. A rule with at
  least two colon-separated parts whose second part is an allowed release type yields
  exactly two rules of its type: first the breaking one with release \<open>major\<close>, then
  the one with the release as written, not breaking. Both carry the same section: the
  third part when there is one and it is not the empty string; otherwise (no third part,
  or an empty one) the section of the default entry found under the lowercased type,
  \<open>undefined\<close> when there is none. A rule that is not accepted yields no rule.
\<close>

theorem mapCustomReleaseRules_expansion:
  "snd (mapCustomReleaseRules defaults types s) =
     concat (map (\<lambda>r. snd (mapCustomReleaseRules defaults types r)) (js_split CHR '','' s))
   \<and> (\<forall>r \<in> set (js_split CHR '','' s).
         2 \<le> length (js_split CHR '':'' r) \<and> js_split CHR '':'' r ! 1 \<in> set types \<longrightarrow>
         snd (mapCustomReleaseRules defaults types r) =
           (let p = js_split CHR '':'' r;
                sec = (if 3 \<le> length p \<and> p ! 2 \<noteq> [] then Some (p ! 2)
                       else (case map_of defaults (toLowerCase (p ! 0)) of
                               None \<Rightarrow> None
                             | Some d \<Rightarrow> section' d))
            in [\<lparr>type = p ! 0, release = Some ''major'', section' = sec, breaking = Some True\<rparr>,
                \<lparr>type = p ! 0, release = Some (p ! 1), section' = sec, breaking = Some False\<rparr>]))
   \<and> (\<forall>r \<in> set (js_split CHR '','' s).
         \<not> (2 \<le> length (js_split CHR '':'' r) \<and> js_split CHR '':'' r ! 1 \<in> set types) \<longrightarrow>
         snd (mapCustomReleaseRules defaults types r) = [])"
  using mapCustomReleaseRules_concat [of defaults types s]
  by (auto simp: mapCustomReleaseRules_single js_split_pieces kept_iff map_customReleaseRule_parts
           simp del: One_nat_def)

theorem mapCustomReleaseRules_expansion_witness:
  "''Build:patch'' \<in> set (js_split CHR '','' ''feat:minor:New,x,Build:patch'')
   \<and> 2 \<le> length (js_split CHR '':'' ''Build:patch'')
   \<and> js_split CHR '':'' ''Build:patch'' ! 1 \<in> set sample_types
   \<and> snd (mapCustomReleaseRules sample_defaults sample_types ''Build:patch'') =
       [\<lparr>type = ''Build'', release = Some ''major'', section' = Some ''Build Systems'',
           breaking = Some True\<rparr>,
        \<lparr>type = ''Build'', release = Some ''patch'', section' = Some ''Build Systems'',
           breaking = Some False\<rparr>]
   \<and> snd (mapCustomReleaseRules sample_defaults sample_types ''feat:minor:New,x,Build:patch'') =
       snd (mapCustomReleaseRules sample_defaults sample_types ''feat:minor:New'')
       @ snd (mapCustomReleaseRules sample_defaults sample_types ''x'')
       @ snd (mapCustomReleaseRules sample_defaults sample_types ''Build:patch'')"
proof -
  let ?s = "''feat:minor:New,x,Build:patch''"
  note t = mapCustomReleaseRules_expansion [of sample_defaults sample_types ?s]
  have mem: "''Build:patch'' \<in> set (js_split CHR '','' ?s)"
    by simp
  have acc: "2 \<le> length (js_split CHR '':'' ''Build:patch'')
             \<and> js_split CHR '':'' ''Build:patch'' ! 1 \<in> set sample_types"
    by (simp add: sample_types_def)
  from t mem acc
  have "snd (mapCustomReleaseRules sample_defaults sample_types ''Build:patch'') =
          (let p = js_split CHR '':'' ''Build:patch'';
               sec = (if 3 \<le> length p \<and> p ! 2 \<noteq> [] then Some (p ! 2)
                      else (case map_of sample_defaults (toLowerCase (p ! 0)) of
                              None \<Rightarrow> None
                            | Some d \<Rightarrow> section' d))
           in [\<lparr>type = p ! 0, release = Some ''major'', section' = sec, breaking = Some True\<rparr>,
               \<lparr>type = p ! 0, release = Some (p ! 1), section' = sec, breaking = Some False\<rparr>])"
    by blast
  then have one: "snd (mapCustomReleaseRules sample_defaults sample_types ''Build:patch'') =
       [\<lparr>type = ''Build'', release = Some ''major'', section' = Some ''Build Systems'',
           breaking = Some True\<rparr>,
        \<lparr>type = ''Build'', release = Some ''patch'', section' = Some ''Build Systems'',
           breaking = Some False\<rparr>]"
    by (simp add: sample_defaults_def toLowerCase_def toLowerCase_char_def upper_case_def lower_case_def Let_def)
  from t have "snd (mapCustomReleaseRules sample_defaults sample_types ?s) =
     concat (map (\<lambda>r. snd (mapCustomReleaseRules sample_defaults sample_types r))
                 (js_split CHR '','' ?s))"
    by blast
  then have all: "snd (mapCustomReleaseRules sample_defaults sample_types ?s) =
       snd (mapCustomReleaseRules sample_defaults sample_types ''feat:minor:New'')
       @ snd (mapCustomReleaseRules sample_defaults sample_types ''x'')
       @ snd (mapCustomReleaseRules sample_defaults sample_types ''Build:patch'')"
    by simp
  from mem acc one all show ?thesis
    by blast
qed

text \<open>
  Claim C1 as stated fails where the third part is given and empty: \<open>feat:minor:\<close>
  has three parts, the third one the empty string, and both rules carry the default
  section \<open>Features\<close> instead of it.
\<close>

theorem mapCustomReleaseRules_empty_section_counterexample:
  "2 \<le> length (js_split CHR '':'' ''feat:minor:'')
   \<and> js_split CHR '':'' ''feat:minor:'' ! 1 \<in> set sample_types
   \<and> js_nth (js_split CHR '':'' ''feat:minor:'') 2 = Some ''''
   \<and> map section' (snd (mapCustomReleaseRules sample_defaults sample_types ''feat:minor:'')) =
       [Some ''Features'', Some ''Features'']"
  by (simp add: rules_eval)

text \<open>
  Claim C2. The merged table holds, under every key, the last of the given rules with
  that type, and the default entry where no given rule has that type. For the rules
  the expander returns, the entry under the type of any of them is one of them, of that
  type and not breaking: the variant with the release as written, never the
  breaking \<open>major\<close> one. The returned list consists of exactly the entries of the
  table whose section is truthy, each once; the other entries are dropped.
\<close>

theorem mergeWithDefaultChangelogRules_table:
  assumes "distinct (map fst defaults)"
  shows "(\<forall>k. map_of (mergedRules defaults rules) k =
            (case find (\<lambda>r. type r = k) (rev rules) of
               Some r \<Rightarrow> Some r
             | None \<Rightarrow> map_of defaults k))
       \<and> (\<forall>r \<in> set (snd (mapCustomReleaseRules defaults types s)).
            \<exists>e \<in> set (snd (mapCustomReleaseRules defaults types s)).
              map_of (mergedRules defaults (snd (mapCustomReleaseRules defaults types s))) (type r) = Some e
              \<and> type e = type r \<and> breaking e = Some False)
       \<and> set (mergeWithDefaultChangelogRules defaults rules) =
            {e. \<exists>k. map_of (mergedRules defaults rules) k = Some e \<and> truthy (section' e)}
       \<and> mset (mergeWithDefaultChangelogRules defaults rules) =
            filter_mset (\<lambda>e. truthy (section' e)) (mset (map snd (mergedRules defaults rules)))
       \<and> distinct (map fst (mergedRules defaults rules))"
proof (intro conjI allI ballI)
  fix k
  show "map_of (mergedRules defaults rules) k =
          (case find (\<lambda>r. type r = k) (rev rules) of Some r \<Rightarrow> Some r | None \<Rightarrow> map_of defaults k)"
    by (rule map_of_mergedRules)
next
  fix r
  let ?out = "snd (mapCustomReleaseRules defaults types s)"
  assume "r \<in> set ?out"
  then obtain e where e: "find (\<lambda>x. type x = type r) (rev ?out) = Some e" "e \<in> set ?out" "type e = type r"
    using find_rev_Some [of r ?out "\<lambda>x. type x = type r"] by auto
  then have "breaking e = Some False"
    using mapped_rule_survivor by blast
  with e show "\<exists>e \<in> set ?out. map_of (mergedRules defaults ?out) (type r) = Some e
                 \<and> type e = type r \<and> breaking e = Some False"
    by (auto simp: map_of_mergedRules)
next
  show "set (mergeWithDefaultChangelogRules defaults rules) =
          {e. \<exists>k. map_of (mergedRules defaults rules) k = Some e \<and> truthy (section' e)}"
    using assms by (rule set_mergeWithDefaultChangelogRules)
next
  show "mset (mergeWithDefaultChangelogRules defaults rules) =
          filter_mset (\<lambda>e. truthy (section' e)) (mset (map snd (mergedRules defaults rules)))"
    by (rule mset_mergeWithDefaultChangelogRules)
next
  show "distinct (map fst (mergedRules defaults rules))"
    using assms by (rule distinct_mergedRules)
qed

theorem mergeWithDefaultChangelogRules_table_witness:
  "distinct (map fst sample_defaults)
   \<and> map_of (mergedRules sample_defaults
               (snd (mapCustomReleaseRules sample_defaults sample_types ''feat:minor:New'')))
        ''feat'' =
       Some \<lparr>type = ''feat'', release = Some ''minor'', section' = Some ''New'',
             breaking = Some False\<rparr>
   \<and> map_of (mergedRules sample_defaults
               (snd (mapCustomReleaseRules sample_defaults sample_types ''feat:minor:New'')))
        ''fix'' =
       Some \<lparr>type = ''fix'', release = None, section' = Some ''Bug Fixes'', breaking = None\<rparr>"
proof -
  have d: "distinct (map fst sample_defaults)"
    by (simp add: sample_defaults_def)
  let ?rules = "snd (mapCustomReleaseRules sample_defaults sample_types ''feat:minor:New'')"
  have rules: "?rules =
      [\<lparr>type = ''feat'', release = Some ''major'', section' = Some ''New'', breaking = Some True\<rparr>,
       \<lparr>type = ''feat'', release = Some ''minor'', section' = Some ''New'', breaking = Some False\<rparr>]"
    by (simp add: rules_eval)
  from mergeWithDefaultChangelogRules_table [OF d, of ?rules sample_types "''feat:minor:New''"]
  have t: "\<And>k. map_of (mergedRules sample_defaults ?rules) k =
            (case find (\<lambda>r. type r = k) (rev ?rules) of
               Some r \<Rightarrow> Some r
             | None \<Rightarrow> map_of sample_defaults k)"
    by blast
  have "map_of (mergedRules sample_defaults ?rules) ''feat'' =
       Some \<lparr>type = ''feat'', release = Some ''minor'', section' = Some ''New'',
             breaking = Some False\<rparr>"
    by (subst t, subst rules) simp
  moreover have "map_of (mergedRules sample_defaults ?rules) ''fix'' =
       Some \<lparr>type = ''fix'', release = None, section' = Some ''Bug Fixes'', breaking = None\<rparr>"
    by (subst t, subst rules) (simp add: sample_defaults_def)
  ultimately show ?thesis
    using d by blast
qed

text \<open>
  Claim C3 does not hold of the code. The two debug messages about a missing section
  are guarded by the length of the rule's string (\<open>customReleaseRule.length !== 3\<close>),
  not by the number of its parts. The rule \<open>a:b\<close> has exactly two parts and three
  characters: no debug message is emitted for it, only the warning that rejects it.
  The rule \<open>feat:minor:New\<close> has an explicit section and the messages are emitted.
\<close>

theorem section_note_on_string_length:
  "length (js_split CHR '':'' ''a:b'') = 2
   \<and> mapCustomReleaseRules defaults sample_types ''a:b'' =
       ([Warning ''b is not a valid release type.''], [])
   \<and> length (js_split CHR '':'' ''feat:minor:New'') = 3
   \<and> fst (mapCustomReleaseRules sample_defaults sample_types ''feat:minor:New'') =
       [Debug ''feat:minor:New doesn't mention the section for the changelog.'',
        Debug ''Default section (Features) will be used instead.'']"
  by (simp add: rules_eval)

text \<open>
  Claim C4. A rule (a string without a comma) with fewer than two colon-separated
  parts, or whose second part is not an allowed release type, yields no rule, and its
  diagnostics end with the warning for it. Between two other inputs it contributes its
  diagnostics and nothing else: the rules before and after it are processed as they
  are without it. The function is total: it returns for every input.
\<close>

theorem mapCustomReleaseRules_rejects:
  assumes "CHR '','' \<notin> set r"
    and "length (js_split CHR '':'' r) < 2 \<or> js_split CHR '':'' r ! 1 \<notin> set types"
  shows "snd (mapCustomReleaseRules defaults types r) = []
       \<and> (if length (js_split CHR '':'' r) < 2
           then fst (mapCustomReleaseRules defaults types r) =
                  [Warning (r @ '' is not a valid custom release definition.'')]
           else fst (mapCustomReleaseRules defaults types r) \<noteq> []
                \<and> last (fst (mapCustomReleaseRules defaults types r)) =
                    Warning (js_split CHR '':'' r ! 1 @ '' is not a valid release type.''))
       \<and> mapCustomReleaseRules defaults types (a @ '','' @ r @ '','' @ b) =
           (fst (mapCustomReleaseRules defaults types a)
              @ fst (mapCustomReleaseRules defaults types r)
              @ fst (mapCustomReleaseRules defaults types b),
            snd (mapCustomReleaseRules defaults types a)
              @ snd (mapCustomReleaseRules defaults types b))"
proof -
  have rej: "\<not> snd (filter_customReleaseRule defaults types r)"
    using assms(2) by (auto simp: kept_iff)
  then have none: "snd (mapCustomReleaseRules defaults types r) = []"
    using assms(1) by (simp add: mapCustomReleaseRules_single)
  have log: "fst (mapCustomReleaseRules defaults types r) = fst (filter_customReleaseRule defaults types r)"
    using assms(1) by (simp add: mapCustomReleaseRules_single)
  have warn: "if length (js_split CHR '':'' r) < 2
           then fst (filter_customReleaseRule defaults types r) =
                  [Warning (r @ '' is not a valid custom release definition.'')]
           else fst (filter_customReleaseRule defaults types r) \<noteq> []
                \<and> last (fst (filter_customReleaseRule defaults types r)) =
                    Warning (js_split CHR '':'' r ! 1 @ '' is not a valid release type.'')"
    using assms(2) by (auto simp: filter_customReleaseRule_def Let_def)
  have "mapCustomReleaseRules defaults types (a @ CHR '','' # r @ CHR '','' # b) =
           (fst (mapCustomReleaseRules defaults types a)
              @ fst (mapCustomReleaseRules defaults types r)
              @ fst (mapCustomReleaseRules defaults types b),
            snd (mapCustomReleaseRules defaults types a)
              @ snd (mapCustomReleaseRules defaults types b))"
    by (simp add: mapCustomReleaseRules_append none)
  with none log warn show ?thesis
    by simp
qed

theorem mapCustomReleaseRules_rejects_witness:
  "CHR '','' \<notin> set ''build:notarealtype''
   \<and> js_split CHR '':'' ''build:notarealtype'' ! 1 \<notin> set sample_types
   \<and> snd (mapCustomReleaseRules sample_defaults sample_types ''build:notarealtype'') = []
   \<and> last (fst (mapCustomReleaseRules sample_defaults sample_types ''build:notarealtype'')) =
       Warning ''notarealtype is not a valid release type.''
   \<and> snd (mapCustomReleaseRules sample_defaults sample_types
            ''fix:patch,build:notarealtype,docs:minor'') =
       snd (mapCustomReleaseRules sample_defaults sample_types ''fix:patch'')
       @ snd (mapCustomReleaseRules sample_defaults sample_types ''docs:minor'')"
proof -
  let ?r = "''build:notarealtype''"
  have c: "CHR '','' \<notin> set ?r"
    by simp
  have n: "js_split CHR '':'' ?r ! 1 \<notin> set sample_types"
    by (simp add: sample_types_def)
  then have h: "length (js_split CHR '':'' ?r) < 2 \<or> js_split CHR '':'' ?r ! 1 \<notin> set sample_types"
    by blast
  note t = mapCustomReleaseRules_rejects [OF c h, of sample_defaults "''fix:patch''" "''docs:minor''"]
  from t have 1: "snd (mapCustomReleaseRules sample_defaults sample_types ?r) = []"
    by blast
  from t have "last (fst (mapCustomReleaseRules sample_defaults sample_types ?r)) =
                 Warning (js_split CHR '':'' ?r ! 1 @ '' is not a valid release type.'')"
    by simp
  then have 2: "last (fst (mapCustomReleaseRules sample_defaults sample_types ?r)) =
                 Warning ''notarealtype is not a valid release type.''"
    by simp
  from t have "snd (mapCustomReleaseRules sample_defaults sample_types
                      (''fix:patch'' @ '','' @ ?r @ '','' @ ''docs:minor'')) =
       snd (mapCustomReleaseRules sample_defaults sample_types ''fix:patch'')
       @ snd (mapCustomReleaseRules sample_defaults sample_types ''docs:minor'')"
    by simp
  then have 3: "snd (mapCustomReleaseRules sample_defaults sample_types
            ''fix:patch,build:notarealtype,docs:minor'') =
       snd (mapCustomReleaseRules sample_defaults sample_types ''fix:patch'')
       @ snd (mapCustomReleaseRules sample_defaults sample_types ''docs:minor'')"
    by simp
  from c n 1 2 3 show ?thesis
    by blast
qed




section \<open>Properties of versions and tags\<close>

lemmas semver_eval =
  parse_def valid_def prerelease_def parse_main_def parse_numeric_def
  parse_prerelease_identifier_def parse_build_identifier_def split_first_def
  is_identifier_char_def is_digit_def decimal_def digit_value_def
  MAX_LENGTH_def MAX_SAFE_INTEGER_def strip_v_def sample_tag_def Let_def

lemmas compare_eval =
  getValidTags_def rcompare_def compare_def compareMain_def comparePre_def compareNumbers_def

subsection \<open>The comparison and the precedence key\<close>

lemma identifier_key_inj: "identifier_key x = identifier_key y \<longleftrightarrow> x = y"
  by (cases x; cases y) auto

lemma compareIdentifiers_key:
  "compareIdentifiers x y =
     (if identifier_key x < identifier_key y then -1
      else if identifier_key x = identifier_key y then 0 else 1)"
  by (cases x; cases y) (auto simp: compareNumbers_def)

lemma comparePre_loop_key:
  "comparePre_loop xs ys =
     (if map identifier_key xs < map identifier_key ys then -1
      else if map identifier_key xs = map identifier_key ys then 0 else 1)"
proof (induction xs ys rule: comparePre_loop.induct)
  case (4 x xs y ys)
  then show ?case
    by (auto simp: compareIdentifiers_key identifier_key_inj)
qed auto

lemma compare_precedence:
  "compare a b =
     (if precedence a < precedence b then -1
      else if precedence a = precedence b then 0 else 1)"
  by (auto simp: compare_def compareMain_def comparePre_def comparePre_loop_key
        compareNumbers_def precedence_def)

lemma compare_le_0: "compare a b \<le> 0 \<longleftrightarrow> precedence a \<le> precedence b"
  by (auto simp: compare_precedence)

lemma prerelease_below_release:
  "pre v \<noteq> [] \<Longrightarrow> precedence v < precedence (v\<lparr>pre := []\<rparr>)"
  by (simp add: precedence_def)

subsection \<open>Sorting with a comparator that orders by a key\<close>

lemma insert_by_total:
  assumes "\<forall>y \<in> set ys. \<exists>c. cmp x y = Inr c \<and> (c \<le> 0 \<longleftrightarrow> k y \<le> k x)"
    and "sorted_wrt (\<lambda>a b. k b \<le> k a) ys"
  shows "\<exists>zs. insert_by cmp x ys = Inr zs \<and> mset zs = add_mset x (mset ys)
           \<and> sorted_wrt (\<lambda>a b. (k b :: 'k :: linorder) \<le> k a) zs"
  using assms
proof (induction ys)
  case Nil
  then show ?case by simp
next
  case (Cons y ys)
  from Cons.prems(1) obtain c where c: "cmp x y = Inr c" "c \<le> 0 \<longleftrightarrow> k y \<le> k x"
    by auto
  show ?case
  proof (cases "c \<le> 0")
    case True
    with c Cons.prems(2) show ?thesis
      by (auto intro: order_trans)
  next
    case False
    from Cons.prems obtain zs where zs: "insert_by cmp x ys = Inr zs"
        "mset zs = add_mset x (mset ys)" "sorted_wrt (\<lambda>a b. k b \<le> k a) zs"
      using Cons.IH by auto
    from zs(2) have "set zs = insert x (set ys)"
      by (metis set_mset_add_mset_insert set_mset_mset)
    with False c zs Cons.prems(2) show ?thesis
      by auto
  qed
qed

lemma js_sort_total:
  assumes "\<forall>x \<in> set xs. \<forall>y \<in> set xs. \<exists>c. cmp x y = Inr c \<and> (c \<le> 0 \<longleftrightarrow> k y \<le> k x)"
  shows "\<exists>ys. js_sort cmp xs = Inr ys \<and> mset ys = mset xs
           \<and> sorted_wrt (\<lambda>a b. (k b :: 'k :: linorder) \<le> k a) ys"
  using assms
proof (induction xs)
  case Nil
  then show ?case by simp
next
  case (Cons x xs)
  then obtain ys where ys: "js_sort cmp xs = Inr ys" "mset ys = mset xs"
      "sorted_wrt (\<lambda>a b. k b \<le> k a) ys"
    by auto
  from ys(2) have "set ys = set xs"
    by (metis set_mset_mset)
  with Cons.prems have "\<forall>y \<in> set ys. \<exists>c. cmp x y = Inr c \<and> (c \<le> 0 \<longleftrightarrow> k y \<le> k x)"
    by simp
  then have "\<exists>zs. insert_by cmp x ys = Inr zs \<and> mset zs = add_mset x (mset ys)
           \<and> sorted_wrt (\<lambda>a b. k b \<le> k a) zs"
    using ys(3) by (rule insert_by_total [where k = k])
  with ys show ?case
    by auto
qed

lemma insert_by_sorted:
  assumes "\<forall>y \<in> set ys. \<exists>c. cmp x y = Inr c \<and> (c \<le> 0 \<longleftrightarrow> k y \<le> k x)"
    and "\<forall>y \<in> set ys. (k y :: 'k :: linorder) \<le> k x"
  shows "insert_by cmp x ys = Inr (x # ys)"
  using assms by (cases ys) auto

lemma js_sort_sorted:
  assumes "\<forall>x \<in> set xs. \<forall>y \<in> set xs. \<exists>c. cmp x y = Inr c \<and> (c \<le> 0 \<longleftrightarrow> k y \<le> k x)"
    and "sorted_wrt (\<lambda>a b. (k b :: 'k :: linorder) \<le> k a) xs"
  shows "js_sort cmp xs = Inr xs"
  using assms
proof (induction xs)
  case Nil
  then show ?case by simp
next
  case (Cons x xs)
  then have "js_sort cmp xs = Inr xs"
    by simp
  moreover have "insert_by cmp x xs = Inr (x # xs)"
    using Cons.prems by (intro insert_by_sorted [where k = k]) auto
  ultimately show ?case
    by simp
qed

lemma rcompare_valid:
  assumes "valid a" "valid b"
  shows "\<exists>va vb. parse a = Some va \<and> parse b = Some vb
           \<and> rcompare a b = Inr (compare vb va)"
  using assms by (auto simp: valid_def rcompare_def)

lemma tag_comparator:
  assumes "\<forall>t \<in> set ts. valid (strip (name t))"
  shows "\<forall>x \<in> set ts. \<forall>y \<in> set ts. \<exists>c. rcompare (strip (name x)) (strip (name y)) = Inr c
            \<and> (c \<le> 0 \<longleftrightarrow> precedence (the (parse (strip (name y))))
                           \<le> precedence (the (parse (strip (name x)))))"
proof (intro ballI)
  fix x y assume "x \<in> set ts" "y \<in> set ts"
  with assms have "valid (strip (name x))" "valid (strip (name y))"
    by auto
  then obtain va vb where "parse (strip (name x)) = Some va" "parse (strip (name y)) = Some vb"
      "rcompare (strip (name x)) (strip (name y)) = Inr (compare vb va)"
    using rcompare_valid by blast
  then show "\<exists>c. rcompare (strip (name x)) (strip (name y)) = Inr c
            \<and> (c \<le> 0 \<longleftrightarrow> precedence (the (parse (strip (name y))))
                           \<le> precedence (the (parse (strip (name x)))))"
    by (simp add: compare_le_0)
qed

lemma valid_versions:
  assumes "\<forall>t \<in> set ts. valid (strip (name t))"
  shows "map (\<lambda>t. parse (strip (name t))) ts = map Some (map (\<lambda>t. the (parse (strip (name t)))) ts)"
  using assms by (induction ts) (auto simp: valid_def)

lemma getValidTags_sorted:
  "\<exists>logs out. getValidTags strip tags = Inr (logs, out)
     \<and> mset out = mset (filter (\<lambda>t. valid (strip (name t))) tags)
     \<and> sorted_wrt (\<lambda>a b. precedence (the (parse (strip (name b))))
                          \<le> precedence (the (parse (strip (name a))))) out"
proof -
  let ?ts = "filter (\<lambda>t. valid (strip (name t))) tags"
  let ?cmp = "\<lambda>a b. rcompare (strip (name a)) (strip (name b))"
  let ?k = "\<lambda>t. precedence (the (parse (strip (name t))))"
  have "\<forall>t \<in> set ?ts. valid (strip (name t))"
    by simp
  then have "\<forall>x \<in> set ?ts. \<forall>y \<in> set ?ts. \<exists>c. ?cmp x y = Inr c \<and> (c \<le> 0 \<longleftrightarrow> ?k y \<le> ?k x)"
    by (rule tag_comparator)
  then have "\<exists>ys. js_sort ?cmp ?ts = Inr ys \<and> mset ys = mset ?ts
           \<and> sorted_wrt (\<lambda>a b. ?k b \<le> ?k a) ys"
    by (rule js_sort_total [where k = ?k])
  then obtain ys where "js_sort ?cmp ?ts = Inr ys" "mset ys = mset ?ts"
      "sorted_wrt (\<lambda>a b. ?k b \<le> ?k a) ys"
    by blast
  then show ?thesis
    by (simp add: getValidTags_def Let_def)
qed

lemma strict_distinct:
  "sorted_wrt (\<lambda>a b. (f b :: 'k :: linorder) < f a) xs \<Longrightarrow> distinct (map f xs)"
  by (induction xs) auto

lemma sorted_wrt_strict:
  "sorted_wrt (\<lambda>a b. (f b :: 'k :: linorder) \<le> f a) xs \<Longrightarrow> distinct (map f xs)
     \<Longrightarrow> sorted_wrt (\<lambda>a b. f b < f a) xs"
proof (induction xs)
  case Nil
  then show ?case by simp
next
  case (Cons x xs)
  have "f y < f x" if "y \<in> set xs" for y
  proof -
    from that Cons.prems have "f y \<le> f x" "f y \<noteq> f x"
      by (auto simp: image_iff)
    then show ?thesis by simp
  qed
  with Cons show ?case
    by simp
qed

section \<open>Claims about tags\<close>

text \<open>
  Claim C5. \<open>getLatestTag\<close> returns the first tag of the list for whose stripped
  name \<open>prerelease\<close> is \<open>null\<close>: every tag before it has a prerelease component.
  If there is no such tag, which includes the empty list, it returns the tag named
  \<open>tagPrefix\<close> followed by \<open>0.0.0\<close> with the commit \<open>HEAD\<close>. So a tag is
  returned in every case.
\<close>

theorem getLatestTag_first_stable:
  "(\<exists>i < length tags.
       prerelease (strip (name (tags ! i))) = None
     \<and> (\<forall>j < i. prerelease (strip (name (tags ! j))) \<noteq> None)
     \<and> getLatestTag tags strip tagPrefix = tags ! i)
   \<or> ((\<forall>t \<in> set tags. prerelease (strip (name t)) \<noteq> None)
      \<and> getLatestTag tags strip tagPrefix =
          \<lparr>name = tagPrefix @ ''0.0.0'', commit = \<lparr>sha = ''HEAD''\<rparr>\<rparr>)"
proof (cases "find (\<lambda>tag. prerelease (strip (name tag)) = None) tags")
  case None
  then have "\<forall>t \<in> set tags. prerelease (strip (name t)) \<noteq> None"
    by (simp add: find_None_iff)
  moreover from None have "getLatestTag tags strip tagPrefix =
      \<lparr>name = tagPrefix @ ''0.0.0'', commit = \<lparr>sha = ''HEAD''\<rparr>\<rparr>"
    by (simp add: getLatestTag_def)
  ultimately show ?thesis
    by blast
next
  case (Some t)
  then obtain i where "i < length tags" "prerelease (strip (name (tags ! i))) = None"
      "t = tags ! i" "\<forall>j < i. prerelease (strip (name (tags ! j))) \<noteq> None"
    unfolding find_Some_iff by blast
  moreover from Some have "getLatestTag tags strip tagPrefix = t"
    by (simp add: getLatestTag_def)
  ultimately show ?thesis
    by blast
qed

theorem getLatestTag_first_stable_witness:
  "prerelease (strip_v ''v2.0.0-beta.1'') \<noteq> None
   \<and> prerelease (strip_v ''v1.2.3'') = None
   \<and> getLatestTag [sample_tag ''v2.0.0-beta.1''] strip_v ''v'' =
       \<lparr>name = ''v0.0.0'', commit = \<lparr>sha = ''HEAD''\<rparr>\<rparr>
   \<and> getLatestTag [sample_tag ''v2.0.0-beta.1'', sample_tag ''v1.2.3'', sample_tag ''v1.0.0'']
         strip_v ''v'' = sample_tag ''v1.2.3''"
proof -
  have a: "prerelease (strip_v (name (sample_tag ''v2.0.0-beta.1''))) \<noteq> None"
    by (simp add: semver_eval)
  have b: "prerelease (strip_v (name (sample_tag ''v1.2.3''))) = None"
    by (simp add: semver_eval)
  have 1: "getLatestTag [sample_tag ''v2.0.0-beta.1''] strip_v ''v'' =
       \<lparr>name = ''v0.0.0'', commit = \<lparr>sha = ''HEAD''\<rparr>\<rparr>"
    using getLatestTag_first_stable [of "[sample_tag ''v2.0.0-beta.1'']" strip_v "''v''"] a
    by auto
  let ?ts = "[sample_tag ''v2.0.0-beta.1'', sample_tag ''v1.2.3'', sample_tag ''v1.0.0'']"
  from getLatestTag_first_stable [of ?ts strip_v "''v''"]
  obtain i where i: "i < length ?ts" "prerelease (strip_v (name (?ts ! i))) = None"
     "\<forall>j < i. prerelease (strip_v (name (?ts ! j))) \<noteq> None"
     "getLatestTag ?ts strip_v ''v'' = ?ts ! i"
    using b by auto
  from i(1,2) a have "i \<noteq> 0"
    by (cases i) auto
  moreover from i(3) b have "\<not> 1 < i"
    by auto
  ultimately have "i = 1"
    by simp
  with i(4) have 2: "getLatestTag ?ts strip_v ''v'' = sample_tag ''v1.2.3''"
    by simp
  from a b 1 2 show ?thesis
    by (simp add: sample_tag_def)
qed

text \<open>
  Claim C7. For every fetched list \<open>getValidTags\<close> returns (it does not throw: the
  comparator only sees valid names). The returned list holds exactly the tags whose
  stripped name is valid, each as often as the input does; a tag whose stripped name is
  not valid is not in it, wherever it stood. The versions of the returned tags are in
  descending precedence: major, minor, patch, then the prerelease identifiers; the build
  metadata is not part of the precedence.
\<close>

theorem getValidTags_valid_sorted:
  "\<exists>logs out vs. getValidTags strip tags = Inr (logs, out)
     \<and> mset out = mset (filter (\<lambda>t. valid (strip (name t))) tags)
     \<and> (\<forall>t \<in> set tags. \<not> valid (strip (name t)) \<longrightarrow> t \<notin> set out)
     \<and> map (\<lambda>t. parse (strip (name t))) out = map Some vs
     \<and> sorted_wrt (\<lambda>a b. precedence b \<le> precedence a) vs"
proof -
  let ?k = "\<lambda>t. the (parse (strip (name t)))"
  obtain logs out where out: "getValidTags strip tags = Inr (logs, out)"
      "mset out = mset (filter (\<lambda>t. valid (strip (name t))) tags)"
      "sorted_wrt (\<lambda>a b. precedence (?k b) \<le> precedence (?k a)) out"
    using getValidTags_sorted by blast
  from out(2) have set: "set out = {t \<in> set tags. valid (strip (name t))}"
    by (metis set_filter set_mset_mset)
  then have "\<forall>t \<in> set out. valid (strip (name t))"
    by simp
  then have "map (\<lambda>t. parse (strip (name t))) out = map Some (map ?k out)"
    by (rule valid_versions)
  moreover have "sorted_wrt (\<lambda>a b. precedence b \<le> precedence a) (map ?k out)"
    using out(3) by (simp add: sorted_wrt_map)
  ultimately show ?thesis
    using out(1,2) set by blast
qed

theorem getValidTags_valid_sorted_witness:
  "\<not> valid (strip_v ''junk'')
   \<and> (\<exists>logs out. getValidTags strip_v (map sample_tag [''v1.0.0'', ''junk'', ''v2.0.0'']) = Inr (logs, out)
        \<and> sample_tag ''junk'' \<notin> set out
        \<and> mset out = {#sample_tag ''v1.0.0'', sample_tag ''v2.0.0''#})"
proof -
  let ?ts = "map sample_tag [''v1.0.0'', ''junk'', ''v2.0.0'']"
  have j: "\<not> valid (strip_v (name (sample_tag ''junk'')))"
    by (simp add: semver_eval)
  have f: "filter (\<lambda>t. valid (strip_v (name t))) ?ts = [sample_tag ''v1.0.0'', sample_tag ''v2.0.0'']"
    by (simp add: semver_eval)
  from getValidTags_valid_sorted [of strip_v ?ts]
  obtain logs out where out: "getValidTags strip_v ?ts = Inr (logs, out)"
      "mset out = mset (filter (\<lambda>t. valid (strip_v (name t))) ?ts)"
      "\<forall>t \<in> set ?ts. \<not> valid (strip_v (name t)) \<longrightarrow> t \<notin> set out"
    by blast
  from out(3) j have "sample_tag ''junk'' \<notin> set out"
    by simp
  moreover from out(2) have "mset out = {#sample_tag ''v1.0.0'', sample_tag ''v2.0.0''#}"
    unfolding f by simp
  ultimately show ?thesis
    using out(1) j by (auto simp: sample_tag_def)
qed

text \<open>
  Claim C8, amended. For every tag list \<open>getValidTags\<close> returns, and its result holds
  exactly the tags whose stripped name is valid, each as often as the list does: tags of
  equal precedence all stay in it. Sorting is idempotent: \<open>getValidTags\<close> applied to
  its own result returns the same list. The versions of the result are in non-increasing
  precedence, and the order is strictly decreasing exactly when no two valid tags of the
  list have versions of the same precedence. A version with a prerelease is strictly below
  the same version without it.
\<close>

theorem getValidTags_idempotent:
  "\<exists>logs out logs' vs. getValidTags strip tags = Inr (logs, out)
     \<and> mset out = mset (filter (\<lambda>t. valid (strip (name t))) tags)
     \<and> getValidTags strip out = Inr (logs', out)
     \<and> map (\<lambda>t. parse (strip (name t))) out = map Some vs
     \<and> sorted_wrt (\<lambda>a b. precedence b \<le> precedence a) vs
     \<and> (sorted_wrt (\<lambda>a b. precedence b < precedence a) vs \<longleftrightarrow>
          distinct (map (\<lambda>t. map_option precedence (parse (strip (name t))))
                        (filter (\<lambda>t. valid (strip (name t))) tags)))
     \<and> (\<forall>v. pre v \<noteq> [] \<longrightarrow> precedence v < precedence (v\<lparr>pre := []\<rparr>))"
proof -
  let ?k = "\<lambda>t. the (parse (strip (name t)))"
  let ?p = "\<lambda>t. map_option precedence (parse (strip (name t)))"
  let ?cmp = "\<lambda>a b. rcompare (strip (name a)) (strip (name b))"
  let ?ts = "filter (\<lambda>t. valid (strip (name t))) tags"
  obtain logs out where out: "getValidTags strip tags = Inr (logs, out)"
      "mset out = mset ?ts"
      "sorted_wrt (\<lambda>a b. precedence (?k b) \<le> precedence (?k a)) out"
    using getValidTags_sorted by blast
  from out(2) have "set out = {t \<in> set tags. valid (strip (name t))}"
    by (metis set_filter set_mset_mset)
  then have v: "\<forall>t \<in> set out. valid (strip (name t))"
    by simp
  then have f: "filter (\<lambda>t. valid (strip (name t))) out = out"
    by simp
  have "\<forall>x \<in> set out. \<forall>y \<in> set out. \<exists>c. ?cmp x y = Inr c
          \<and> (c \<le> 0 \<longleftrightarrow> precedence (?k y) \<le> precedence (?k x))"
    using v by (rule tag_comparator)
  then have "js_sort ?cmp out = Inr out"
    using out(3) by (rule js_sort_sorted [where k = "\<lambda>t. precedence (?k t)"])
  then have again: "\<exists>logs'. getValidTags strip out = Inr (logs', out)"
    by (simp add: getValidTags_def Let_def f)
  have m: "map (\<lambda>t. parse (strip (name t))) out = map Some (map ?k out)"
    using v by (rule valid_versions)
  have s: "sorted_wrt (\<lambda>a b. precedence b \<le> precedence a) (map ?k out)"
    using out(3) by (simp add: sorted_wrt_map)
  have "mset (map ?p out) = mset (map ?p ?ts)"
    using out(2) by (metis mset_map)
  then have "distinct (map ?p out) \<longleftrightarrow> distinct (map ?p ?ts)"
    by (rule mset_eq_imp_distinct_iff)
  moreover have "map ?p out = map Some (map precedence (map ?k out))"
  proof -
    have "map ?p out = map (map_option precedence) (map (\<lambda>t. parse (strip (name t))) out)"
      by simp
    also have "\<dots> = map (map_option precedence) (map Some (map ?k out))"
      by (simp only: m)
    also have "\<dots> = map Some (map precedence (map ?k out))"
      by simp
    finally show ?thesis .
  qed
  moreover have "distinct (map Some (map precedence (map ?k out))) \<longleftrightarrow>
                 distinct (map precedence (map ?k out))"
    by (simp add: distinct_map inj_on_def)
  ultimately have d: "distinct (map precedence (map ?k out)) \<longleftrightarrow> distinct (map ?p ?ts)"
    by simp
  have "sorted_wrt (\<lambda>a b. precedence b < precedence a) (map ?k out) \<longleftrightarrow>
        distinct (map precedence (map ?k out))"
  proof
    assume "sorted_wrt (\<lambda>a b. precedence b < precedence a) (map ?k out)"
    then show "distinct (map precedence (map ?k out))"
      by (rule strict_distinct)
  next
    assume "distinct (map precedence (map ?k out))"
    with s show "sorted_wrt (\<lambda>a b. precedence b < precedence a) (map ?k out)"
      by (rule sorted_wrt_strict)
  qed
  with d have strict: "sorted_wrt (\<lambda>a b. precedence b < precedence a) (map ?k out) \<longleftrightarrow>
        distinct (map ?p ?ts)"
    by simp
  have below: "\<forall>v. pre v \<noteq> [] \<longrightarrow> precedence v < precedence (v\<lparr>pre := []\<rparr>)"
    by (simp add: prerelease_below_release)
  from again obtain logs' where "getValidTags strip out = Inr (logs', out)"
    by blast
  with out(1,2) m s strict below show ?thesis
    by blast
qed

theorem getValidTags_idempotent_witness:
  "distinct (map (\<lambda>t. map_option precedence (parse (strip_v (name t))))
       (filter (\<lambda>t. valid (strip_v (name t)))
          [sample_tag ''v2.0.0-beta.1'', sample_tag ''junk'', sample_tag ''v2.0.0'']))
   \<and> sorted_wrt (\<lambda>a b. precedence b < precedence a)
       [\<lparr>major = 2, minor = 0, patch = 0, pre = [], build = []\<rparr>,
        \<lparr>major = 2, minor = 0, patch = 0, pre = [Alphanumeric ''beta'', Numeric 1], build = []\<rparr>]
   \<and> (\<exists>logs. getValidTags strip_v [sample_tag ''v2.0.0'', sample_tag ''v2.0.0-beta.1''] =
         Inr (logs, [sample_tag ''v2.0.0'', sample_tag ''v2.0.0-beta.1'']))
   \<and> precedence \<lparr>major = 2, minor = 0, patch = 0, pre = [Alphanumeric ''beta'', Numeric 1], build = []\<rparr>
       < precedence \<lparr>major = 2, minor = 0, patch = 0, pre = [], build = []\<rparr>"
proof -
  let ?ts = "[sample_tag ''v2.0.0-beta.1'', sample_tag ''junk'', sample_tag ''v2.0.0'']"
  let ?out = "[sample_tag ''v2.0.0'', sample_tag ''v2.0.0-beta.1'']"
  let ?b = "\<lparr>major = 2, minor = 0, patch = 0, pre = [Alphanumeric ''beta'', Numeric 1], build = []\<rparr>"
  let ?vs = "[\<lparr>major = 2, minor = 0, patch = 0, pre = [], build = []\<rparr>, ?b]"
  have e: "\<exists>logs. getValidTags strip_v ?ts = Inr (logs, ?out)"
    by (simp add: semver_eval compare_eval)
  have p: "map (\<lambda>t. parse (strip_v (name t))) ?out = map Some ?vs"
    by (simp add: semver_eval)
  have d: "distinct (map (\<lambda>t. map_option precedence (parse (strip_v (name t))))
             (filter (\<lambda>t. valid (strip_v (name t))) ?ts))"
    by (simp add: semver_eval precedence_def)
  from getValidTags_idempotent [of strip_v ?ts]
  obtain logs out logs' vs where t: "getValidTags strip_v ?ts = Inr (logs, out)"
      "getValidTags strip_v out = Inr (logs', out)"
      "map (\<lambda>t. parse (strip_v (name t))) out = map Some vs"
      "sorted_wrt (\<lambda>a b. precedence b < precedence a) vs \<longleftrightarrow>
         distinct (map (\<lambda>t. map_option precedence (parse (strip_v (name t))))
             (filter (\<lambda>t. valid (strip_v (name t))) ?ts))"
      "\<forall>v. pre v \<noteq> [] \<longrightarrow> precedence v < precedence (v\<lparr>pre := []\<rparr>)"
    by blast
  from t(1) e have o: "out = ?out"
    by auto
  with t(3) p have "map Some vs = map Some ?vs"
    by simp
  then have v: "vs = ?vs"
    by (simp add: map_eq_Cons_conv)
  from t(4) d have 1: "sorted_wrt (\<lambda>a b. precedence b < precedence a) ?vs"
    unfolding v by blast
  from t(2) have 2: "\<exists>logs. getValidTags strip_v ?out = Inr (logs, ?out)"
    unfolding o by blast
  have "pre ?b \<noteq> []"
    by simp
  with t(5) have "precedence ?b < precedence (?b\<lparr>pre := []\<rparr>)"
    by blast
  then have 3: "precedence ?b < precedence \<lparr>major = 2, minor = 0, patch = 0, pre = [], build = []\<rparr>"
    by simp
  from d 1 2 3 show ?thesis
    by blast
qed

text \<open>
  Claim C8 as stated fails: two tags that differ only in build metadata are both valid
  and have the same precedence, so the result is not strictly decreasing.
\<close>

theorem getValidTags_not_strict_counterexample:
  "getValidTags strip_v [sample_tag ''v1.0.0+a'', sample_tag ''v1.0.0+b''] =
     Inr ([Debug ''Found Valid Tag: v1.0.0+a.'', Debug ''Found Valid Tag: v1.0.0+b.''],
          [sample_tag ''v1.0.0+a'', sample_tag ''v1.0.0+b''])
   \<and> parse (strip_v ''v1.0.0+a'') =
       Some \<lparr>major = 1, minor = 0, patch = 0, pre = [], build = [''a'']\<rparr>
   \<and> parse (strip_v ''v1.0.0+b'') =
       Some \<lparr>major = 1, minor = 0, patch = 0, pre = [], build = [''b'']\<rparr>
   \<and> \<not> precedence \<lparr>major = 1, minor = 0, patch = 0, pre = [], build = [''b'']\<rparr>
        < precedence \<lparr>major = 1, minor = 0, patch = 0, pre = [], build = [''a'']\<rparr>"
  by (simp add: semver_eval compare_eval precedence_def)

section \<open>Properties of the regular expressions\<close>

lemmas regex_eval =
  fragment_RegExp_def compile_def normal_step_def escaped_step_def class_step_def
  class_escaped_step_def control_escape_def is_letter_def is_digit_def is_word_def
  is_space_def is_line_terminator_def escape_class_def re_test_def consume_def
  scope_pattern_def scope_prefix_def scope_suffix_def

subsection \<open>Compiling plain characters\<close>

lemma steps_append:
  "steps st (a @ b) = (case steps st a of Inl e \<Rightarrow> Inl e | Inr st' \<Rightarrow> steps st' b)"
  by (induction a arbitrary: st) (auto split: sum.splits)

lemma normal_step_plain:
  "plain c \<Longrightarrow> normal_step fs c = push_term (Atom (Lit c)) fs"
  by (auto simp: plain_def normal_step_def)

lemma lits_Cons: "lits p (c # cs) = lits (Cat p (Lit c)) cs"
  by (simp add: lits_def)

lemma lits_Nil: "lits p [] = p"
  by (simp add: lits_def)

lemma steps_plain:
  assumes "list_all plain cs"
  shows "\<exists>d' l'. steps (Normal, Frame a d l # fs) cs = Inr (Normal, Frame a d' l' # fs)
            \<and> flush d' l' = lits (flush d l) cs"
  using assms
proof (induction cs arbitrary: d l)
  case Nil
  then show ?case by (simp add: lits_Nil)
next
  case (Cons c cs)
  then have "plain c" "list_all plain cs"
    by simp_all
  from Cons.IH [OF this(2), of "flush d l" "Atom (Lit c)"] \<open>plain c\<close>
  show ?case
    by (simp add: normal_step_plain lits_Cons)
qed

lemma compile_plain:
  assumes "list_all plain cs"
  shows "compile cs = Inr (lits Epsilon cs)"
proof -
  from steps_plain [OF assms, of None Epsilon NoTerm "[]"]
  obtain d' l' where "steps (Normal, [Frame None Epsilon NoTerm]) cs = Inr (Normal, [Frame None d' l'])"
      "flush d' l' = lits Epsilon cs"
    by auto
  then show ?thesis
    by (simp add: compile_def)
qed

subsection \<open>Matching\<close>

lemma consume_iff: "consume accepts s k \<longleftrightarrow> (\<exists>c cs. s = c # cs \<and> accepts c \<and> k False cs)"
  by (cases s) (auto simp: consume_def)

lemma rmatch_lits:
  "rmatch (lits p cs) start s k =
     rmatch p start s (\<lambda>start' s'. \<exists>u. s' = cs @ u \<and> k (start' \<and> cs = []) u)"
proof (induction cs arbitrary: p)
  case Nil
  show ?case by (simp add: lits_Nil)
next
  case (Cons c cs)
  have "(\<lambda>start' s'. consume (\<lambda>x. x = c) s' (\<lambda>start'' s''. \<exists>u. s'' = cs @ u \<and> k (start'' \<and> cs = []) u))
      = (\<lambda>start' s'. \<exists>u. s' = (c # cs) @ u \<and> k (start' \<and> c # cs = []) u)"
    by (intro ext) (auto simp: consume_iff)
  then show ?case
    by (simp add: lits_Cons Cons.IH)
qed

lemma match_later_iff:
  "match_later r s \<longleftrightarrow> (\<exists>p t. p \<noteq> [] \<and> s = p @ t \<and> rmatch r False t (\<lambda>_ _. True))"
proof (induction s)
  case Nil
  show ?case by simp
next
  case (Cons c cs)
  show ?case
  proof
    assume "match_later r (c # cs)"
    then consider "rmatch r False cs (\<lambda>_ _. True)" | "match_later r cs"
      by auto
    then show "\<exists>p t. p \<noteq> [] \<and> c # cs = p @ t \<and> rmatch r False t (\<lambda>_ _. True)"
    proof cases
      case 1
      then have "[c] \<noteq> [] \<and> c # cs = [c] @ cs \<and> rmatch r False cs (\<lambda>_ _. True)"
        by simp
      then show ?thesis by blast
    next
      case 2
      with Cons.IH obtain p t where "p \<noteq> []" "cs = p @ t" "rmatch r False t (\<lambda>_ _. True)"
        by blast
      then have "c # p \<noteq> [] \<and> c # cs = (c # p) @ t \<and> rmatch r False t (\<lambda>_ _. True)"
        by simp
      then show ?thesis by blast
    qed
  next
    assume "\<exists>p t. p \<noteq> [] \<and> c # cs = p @ t \<and> rmatch r False t (\<lambda>_ _. True)"
    then obtain p t where pt: "p \<noteq> []" "c # cs = p @ t" "rmatch r False t (\<lambda>_ _. True)"
      by blast
    then obtain p' where p': "p = c # p'" "cs = p' @ t"
      by (cases p) auto
    show "match_later r (c # cs)"
    proof (cases "p' = []")
      case True
      with p' pt(3) show ?thesis by simp
    next
      case False
      with p' pt(3) Cons.IH have "match_later r cs"
        by blast
      then show ?thesis by simp
    qed
  qed
qed

lemma re_test_iff:
  "re_test r s \<longleftrightarrow> (\<exists>p t. s = p @ t \<and> rmatch r (p = []) t (\<lambda>_ _. True))"
proof
  assume "re_test r s"
  then consider "rmatch r True s (\<lambda>_ _. True)" | "match_later r s"
    by (auto simp: re_test_def)
  then show "\<exists>p t. s = p @ t \<and> rmatch r (p = []) t (\<lambda>_ _. True)"
  proof cases
    case 1
    then have "s = [] @ s \<and> rmatch r ([] = ([] :: string)) s (\<lambda>_ _. True)"
      by simp
    then show ?thesis by blast
  next
    case 2
    then obtain p t where "p \<noteq> []" "s = p @ t" "rmatch r False t (\<lambda>_ _. True)"
      unfolding match_later_iff by blast
    then have "s = p @ t \<and> rmatch r (p = []) t (\<lambda>_ _. True)"
      by simp
    then show ?thesis by blast
  qed
next
  assume "\<exists>p t. s = p @ t \<and> rmatch r (p = []) t (\<lambda>_ _. True)"
  then obtain p t where pt: "s = p @ t" "rmatch r (p = []) t (\<lambda>_ _. True)"
    by blast
  show "re_test r s"
  proof (cases "p = []")
    case True
    with pt show ?thesis by (simp add: re_test_def)
  next
    case False
    with pt have "match_later r s"
      unfolding match_later_iff by auto
    then show ?thesis by (simp add: re_test_def)
  qed
qed

lemma re_test_lits:
  "re_test (lits Epsilon cs) s \<longleftrightarrow> (\<exists>u v. s = u @ cs @ v)"
  by (simp add: re_test_iff rmatch_lits) blast

subsection \<open>The pattern of a scope\<close>

lemma steps_scope_prefix:
  "steps (Normal, [Frame None Epsilon NoTerm]) scope_prefix =
   Inr (Normal, [Frame None (Cat (Cat Epsilon Bol) types_re) (Atom (Lit CHR ''(''))])"
  by (simp add: scope_prefix_def regex_eval types_re_def commit_types_def lits_def)

lemma steps_scope_suffix:
  "steps (Normal, [Frame None d l]) scope_suffix =
   Inr (Normal, [Frame None
     (Cat (Cat (Cat (flush d l) (Lit CHR '')'')) (Lit CHR '':'')) (Lit CHR '' ''))
     (Quantified (OneOrMore (Class False [CEscape CHR ''w'', CChar CHR '' ''])))])"
  by (simp add: scope_suffix_def regex_eval)

lemma compile_scope_pattern:
  assumes "list_all plain scope"
  shows "compile (scope_pattern scope) = Inr (scope_re scope)"
proof -
  from steps_plain [OF assms, of None "Cat (Cat Epsilon Bol) types_re" "Atom (Lit CHR ''('')" "[]"]
  obtain d' l' where s: "steps (Normal, [Frame None (Cat (Cat Epsilon Bol) types_re) (Atom (Lit CHR ''(''))]) scope
        = Inr (Normal, [Frame None d' l'])"
      "flush d' l' = lits (Cat (Cat (Cat Epsilon Bol) types_re) (Lit CHR ''('')) scope"
    by auto
  have "steps (Normal, [Frame None Epsilon NoTerm]) (scope_prefix @ scope @ scope_suffix) =
        Inr (Normal, [Frame None
     (Cat (Cat (Cat (flush d' l') (Lit CHR '')'')) (Lit CHR '':'')) (Lit CHR '' ''))
     (Quantified (OneOrMore (Class False [CEscape CHR ''w'', CChar CHR '' ''])))])"
    by (simp only: steps_append steps_scope_prefix s(1) steps_scope_suffix sum.case)
  then show ?thesis
    unfolding scope_pattern_def compile_def by (simp add: s(2) scope_re_def)
qed

lemma rmatch_alts:
  "rmatch (foldl (\<lambda>a t. Alt a (lits Epsilon t)) r0 ts) start s k \<longleftrightarrow>
     rmatch r0 start s k \<or> (\<exists>t \<in> set ts. \<exists>u. s = t @ u \<and> k (start \<and> t = []) u)"
  by (induction ts arbitrary: r0) (auto simp: rmatch_lits)

lemma rmatch_types_re:
  "rmatch types_re start s k \<longleftrightarrow> (\<exists>t \<in> set commit_types. \<exists>u. s = t @ u \<and> k False u)"
proof -
  have "rmatch types_re start s k \<longleftrightarrow>
          (\<exists>u. s = ''build'' @ u \<and> k (start \<and> ''build'' = []) u)
          \<or> (\<exists>t \<in> set (tl commit_types). \<exists>u. s = t @ u \<and> k (start \<and> t = []) u)"
    by (simp only: types_re_def rmatch_alts rmatch_lits rmatch.simps)
  also have "\<dots> \<longleftrightarrow> (\<exists>t \<in> set commit_types. \<exists>u. s = t @ u \<and> k (start \<and> t = []) u)"
    by (simp add: commit_types_def)
  also have "\<dots> \<longleftrightarrow> (\<exists>t \<in> set commit_types. \<exists>u. s = t @ u \<and> k False u)"
    by (auto simp: commit_types_def)
  finally show ?thesis .
qed

lemma repeat_True: "repeat m fuel start s (\<lambda>_ _. True)"
  by (cases fuel) auto

lemma rmatch_scope_re:
  "rmatch (scope_re scope) start s (\<lambda>_ _. True) \<longleftrightarrow>
     start \<and> (\<exists>t \<in> set commit_types. \<exists>c rest.
        s = t @ ''('' @ scope @ ''): '' @ c # rest \<and> (is_word c \<or> c = CHR '' ''))"
proof -
  have "rmatch (scope_re scope) start s (\<lambda>_ _. True) \<longleftrightarrow>
     start \<and> (\<exists>t \<in> set commit_types. \<exists>u. s = t @ u \<and>
        (\<exists>c1 u1. u = c1 # u1 \<and> c1 = CHR ''('' \<and>
        (\<exists>u2. u1 = scope @ u2 \<and>
        (\<exists>c3 u3. u2 = c3 # u3 \<and> c3 = CHR '')'' \<and>
        (\<exists>c4 u4. u3 = c4 # u4 \<and> c4 = CHR '':'' \<and>
        (\<exists>c5 u5. u4 = c5 # u5 \<and> c5 = CHR '' '' \<and>
        (\<exists>c rest. u5 = c # rest \<and> (is_word c \<or> c = CHR '' ''))))))))"
    by (simp add: scope_re_def rmatch_lits rmatch_types_re consume_iff repeat_True
          escape_class_def)
  also have "\<dots> \<longleftrightarrow> start \<and> (\<exists>t \<in> set commit_types. \<exists>c rest.
        s = t @ ''('' @ scope @ ''): '' @ c # rest \<and> (is_word c \<or> c = CHR '' ''))"
    by (simp add: ex_simps [symmetric] del: ex_simps)
  finally show ?thesis .
qed

lemma re_test_scope_re:
  "re_test (scope_re scope) s \<longleftrightarrow>
     (\<exists>t \<in> set commit_types. \<exists>c rest.
        s = t @ ''('' @ scope @ ''): '' @ c # rest \<and> (is_word c \<or> c = CHR '' ''))"
proof -
  have "re_test (scope_re scope) s \<longleftrightarrow>
          (\<exists>p t. s = p @ t \<and> rmatch (scope_re scope) (p = []) t (\<lambda>_ _. True))"
    by (rule re_test_iff)
  also have "\<dots> \<longleftrightarrow> rmatch (scope_re scope) True s (\<lambda>_ _. True)"
    by (auto simp: rmatch_scope_re)
  finally show ?thesis
    by (simp add: rmatch_scope_re)
qed

subsection \<open>Constructors\<close>

lemma conforms_compiled:
  "conforms RegExp \<Longrightarrow> compile source = Inr r \<Longrightarrow> RegExp source = Inr (re_test r)"
  by (simp add: conforms_def)

lemma conforms_invalid:
  "conforms RegExp \<Longrightarrow> compile source = Inl Invalid \<Longrightarrow> RegExp source = Inl SyntaxError"
  by (simp add: conforms_def)

lemma conforms_fragment: "conforms fragment_RegExp"
  by (simp add: conforms_def fragment_RegExp_def)

lemma matches_plain_scope:
  assumes "conforms RegExp" and "list_all plain scope"
  shows "matches RegExp (scope_pattern scope) s \<longleftrightarrow>
     (\<exists>t \<in> set commit_types. \<exists>c rest.
        s = t @ ''('' @ scope @ ''): '' @ c # rest \<and> (is_word c \<or> c = CHR '' ''))"
  by (simp add: matches_def conforms_compiled [OF assms(1) compile_scope_pattern [OF assms(2)]]
        re_test_scope_re)

lemma some_scope_compiled:
  assumes "\<forall>scope \<in> set scopes. \<exists>re. RegExp (scope_pattern scope) = Inr re"
  shows "some_scope RegExp msg scopes =
           Inr (\<exists>scope \<in> set scopes. matches RegExp (scope_pattern scope) msg)"
  using assms by (induction scopes) (auto simp: matches_def)

lemma getScopedCommits_compiled:
  assumes "\<forall>scope \<in> set scopes. \<exists>re. RegExp (scope_pattern scope) = Inr re"
  shows "getScopedCommits RegExp commits scopes =
           Inr (filter (\<lambda>c. \<exists>scope \<in> set scopes. matches RegExp (scope_pattern scope) (message c))
                  commits)"
  by (induction commits) (simp_all add: some_scope_compiled [OF assms])

text \<open>
  A constructor that conforms to the fragment does what the constructor of the fragment
  does on every source that is not outside the fragment.
\<close>

lemma conforms_fragment_eq:
  assumes "conforms RegExp" and "compile source \<noteq> Inl Outside"
  shows "RegExp source = fragment_RegExp source"
proof (cases "compile source")
  case (Inl rejected)
  with assms(2) have "compile source = Inl Invalid"
    by (cases rejected) simp_all
  with assms(1) show ?thesis
    by (simp add: conforms_invalid fragment_RegExp_def)
next
  case (Inr r)
  with assms(1) show ?thesis
    by (simp add: conforms_compiled fragment_RegExp_def)
qed

lemma getScopedCommits_conforming:
  assumes "conforms RegExp"
    and "\<forall>scope \<in> set scopes. compile (scope_pattern scope) \<noteq> Inl Outside"
  shows "getScopedCommits RegExp commits scopes = getScopedCommits fragment_RegExp commits scopes"
proof -
  have eq: "RegExp (scope_pattern scope) = fragment_RegExp (scope_pattern scope)"
    if "scope \<in> set scopes" for scope
    using assms that by (simp add: conforms_fragment_eq)
  have some: "some_scope RegExp msg ss = some_scope fragment_RegExp msg ss"
    if "set ss \<subseteq> set scopes" for msg ss
    using that by (induction ss) (auto simp: eq split: sum.splits)
  show ?thesis
    by (induction commits) (auto simp: some split: sum.splits)
qed

subsection \<open>Finding the first match\<close>

lemma find_match_compiled:
  assumes "RegExp identifier = Inr re"
  shows "find_match RegExp identifier strip tags = Inr (find (\<lambda>tag. re (strip (name tag))) tags)"
  using assms by (induction tags) auto

lemma find_match_throws:
  assumes "RegExp identifier = Inl e" and "tags \<noteq> []"
  shows "find_match RegExp identifier strip tags = Inl e"
  using assms by (cases tags) auto

lemma find_filter: "find P (filter Q xs) = find (\<lambda>x. Q x \<and> P x) xs"
  by (induction xs) auto

lemma find_index_form:
  "(\<exists>i < length xs. P (xs ! i) \<and> (\<forall>j < i. \<not> P (xs ! j)) \<and> find P xs = Some (xs ! i))
   \<or> ((\<forall>x \<in> set xs. \<not> P x) \<and> find P xs = None)"
proof (cases "find P xs")
  case None
  then show ?thesis
    by (simp add: find_None_iff)
next
  case (Some x)
  then obtain i where "i < length xs" "P (xs ! i)" "x = xs ! i" "\<forall>j < i. \<not> P (xs ! j)"
    unfolding find_Some_iff by blast
  with Some show ?thesis
    by blast
qed

lemma getLatestPrereleaseTag_compiled:
  assumes "RegExp identifier = Inr re"
  shows "getLatestPrereleaseTag RegExp tags identifier strip =
           Inr (find (\<lambda>tag. prerelease (strip (name tag)) \<noteq> None \<and> re (strip (name tag))) tags)"
  using assms by (simp add: getLatestPrereleaseTag_def find_match_compiled find_filter)

section \<open>Claims about prerelease tags and scoped commits\<close>

text \<open>
  Claim C6, amended. The first three parts hold for every constructor of expressions.
  When the constructor accepts the identifier, \<open>getLatestPrereleaseTag\<close> returns the
  first tag of the list whose stripped name has a prerelease component and is matched by
  the expression of the identifier, and \<open>undefined\<close> when no tag has both; there is
  no synthetic tag. When the constructor rejects the identifier and a tag of the list has
  a prerelease component, the call throws the error of the constructor. When no tag of
  the list has a prerelease component the result is \<open>undefined\<close> for every identifier.
  A constructor that conforms to the fragment accepts an identifier of plain characters,
  and a name matches it exactly when the name contains it.
\<close>

theorem getLatestPrereleaseTag_first_match:
  "(RegExp identifier = Inr re \<longrightarrow>
      (\<exists>i < length tags.
          prerelease (strip (name (tags ! i))) \<noteq> None \<and> re (strip (name (tags ! i)))
        \<and> (\<forall>j < i. \<not> (prerelease (strip (name (tags ! j))) \<noteq> None
                        \<and> re (strip (name (tags ! j)))))
        \<and> getLatestPrereleaseTag RegExp tags identifier strip = Inr (Some (tags ! i)))
      \<or> ((\<forall>t \<in> set tags. \<not> (prerelease (strip (name t)) \<noteq> None \<and> re (strip (name t))))
         \<and> getLatestPrereleaseTag RegExp tags identifier strip = Inr None))
   \<and> (RegExp identifier = Inl e \<and> (\<exists>t \<in> set tags. prerelease (strip (name t)) \<noteq> None) \<longrightarrow>
        getLatestPrereleaseTag RegExp tags identifier strip = Inl e)
   \<and> ((\<forall>t \<in> set tags. prerelease (strip (name t)) = None) \<longrightarrow>
        getLatestPrereleaseTag RegExp tags identifier strip = Inr None)
   \<and> (conforms RegExp \<and> list_all plain identifier \<longrightarrow>
        (\<exists>re'. RegExp identifier = Inr re' \<and> (\<forall>s. re' s \<longleftrightarrow> (\<exists>u v. s = u @ identifier @ v))))"
proof (intro conjI impI)
  let ?P = "\<lambda>tag. prerelease (strip (name tag)) \<noteq> None \<and> re (strip (name tag))"
  assume "RegExp identifier = Inr re"
  then have "getLatestPrereleaseTag RegExp tags identifier strip = Inr (find ?P tags)"
    by (rule getLatestPrereleaseTag_compiled)
  with find_index_form [of tags ?P]
  show "(\<exists>i < length tags.
          prerelease (strip (name (tags ! i))) \<noteq> None \<and> re (strip (name (tags ! i)))
        \<and> (\<forall>j < i. \<not> (prerelease (strip (name (tags ! j))) \<noteq> None
                        \<and> re (strip (name (tags ! j)))))
        \<and> getLatestPrereleaseTag RegExp tags identifier strip = Inr (Some (tags ! i)))
      \<or> ((\<forall>t \<in> set tags. \<not> (prerelease (strip (name t)) \<noteq> None \<and> re (strip (name t))))
         \<and> getLatestPrereleaseTag RegExp tags identifier strip = Inr None)"
    by auto
next
  assume a: "RegExp identifier = Inl e \<and> (\<exists>t \<in> set tags. prerelease (strip (name t)) \<noteq> None)"
  then have "filter (\<lambda>tag. prerelease (strip (name tag)) \<noteq> None) tags \<noteq> []"
    by (simp add: filter_empty_conv)
  with a show "getLatestPrereleaseTag RegExp tags identifier strip = Inl e"
    by (simp add: getLatestPrereleaseTag_def find_match_throws)
next
  assume "\<forall>t \<in> set tags. prerelease (strip (name t)) = None"
  then have "filter (\<lambda>tag. prerelease (strip (name tag)) \<noteq> None) tags = []"
    by (simp add: filter_empty_conv)
  then show "getLatestPrereleaseTag RegExp tags identifier strip = Inr None"
    by (simp add: getLatestPrereleaseTag_def)
next
  assume a: "conforms RegExp \<and> list_all plain identifier"
  then have "compile identifier = Inr (lits Epsilon identifier)"
    by (simp add: compile_plain)
  with a have "RegExp identifier = Inr (re_test (lits Epsilon identifier))"
    by (simp add: conforms_compiled)
  then show "\<exists>re'. RegExp identifier = Inr re' \<and> (\<forall>s. re' s \<longleftrightarrow> (\<exists>u v. s = u @ identifier @ v))"
    by (simp add: re_test_lits)
qed

theorem getLatestPrereleaseTag_first_match_witness:
  "conforms fragment_RegExp \<and> list_all plain ''beta''
   \<and> getLatestPrereleaseTag fragment_RegExp
        [sample_tag ''v2.0.0'', sample_tag ''v2.0.0-beta.2'', sample_tag ''v2.0.0-beta.1'',
         sample_tag ''v1.0.0'']
        ''beta'' strip_v = Inr (Some (sample_tag ''v2.0.0-beta.2''))
   \<and> getLatestPrereleaseTag fragment_RegExp [sample_tag ''v2.0.0'', sample_tag ''v1.0.0''] ''(''
        strip_v = Inr None
   \<and> fragment_RegExp ''('' = Inl SyntaxError
   \<and> getLatestPrereleaseTag fragment_RegExp [sample_tag ''v2.0.0'', sample_tag ''v1.0.0-rc.1'']
        ''('' strip_v = Inl SyntaxError"
proof -
  let ?ts = "[sample_tag ''v2.0.0'', sample_tag ''v2.0.0-beta.2'', sample_tag ''v2.0.0-beta.1'',
         sample_tag ''v1.0.0'']"
  let ?us = "[sample_tag ''v2.0.0'', sample_tag ''v1.0.0'']"
  let ?ws = "[sample_tag ''v2.0.0'', sample_tag ''v1.0.0-rc.1'']"
  have cf: "conforms fragment_RegExp"
    by (rule conforms_fragment)
  have pl: "list_all plain ''beta''"
    by (simp add: plain_def)
  note t = getLatestPrereleaseTag_first_match [of fragment_RegExp "''beta''" _ ?ts strip_v]
  from t cf pl obtain re where re: "fragment_RegExp ''beta'' = Inr re"
      "\<And>s. re s \<longleftrightarrow> (\<exists>u v. s = u @ ''beta'' @ v)"
    by blast
  let ?P = "\<lambda>tag. prerelease (strip_v (name tag)) \<noteq> None \<and> re (strip_v (name tag))"
  have "''2.0.0-beta.2'' = ''2.0.0-'' @ ''beta'' @ ''.2''"
    by simp
  then have "re ''2.0.0-beta.2''"
    unfolding re(2) by blast
  then have p1: "?P (?ts ! 1)"
    by (simp add: semver_eval)
  have p0: "\<not> ?P (?ts ! 0)"
    by (simp add: semver_eval)
  from p1 have "\<not> (\<forall>t \<in> set ?ts. \<not> ?P t)"
    by simp
  with getLatestPrereleaseTag_first_match [of fragment_RegExp "''beta''" re ?ts strip_v] re(1)
  obtain i where i: "i < length ?ts" "?P (?ts ! i)" "\<forall>j < i. \<not> ?P (?ts ! j)"
      "getLatestPrereleaseTag fragment_RegExp ?ts ''beta'' strip_v = Inr (Some (?ts ! i))"
    by blast
  from i(3) p1 have "\<not> 1 < i"
    by blast
  moreover from i(2) p0 have "i \<noteq> 0"
    by (cases i) auto
  ultimately have "i = 1"
    by simp
  with i(4) have a: "getLatestPrereleaseTag fragment_RegExp ?ts ''beta'' strip_v =
      Inr (Some (sample_tag ''v2.0.0-beta.2''))"
    by simp
  have "\<forall>t \<in> set ?us. prerelease (strip_v (name t)) = None"
    by (simp add: semver_eval)
  with getLatestPrereleaseTag_first_match [of fragment_RegExp "''(''" _ ?us strip_v]
  have b: "getLatestPrereleaseTag fragment_RegExp ?us ''('' strip_v = Inr None"
    by blast
  have c: "fragment_RegExp ''('' = Inl SyntaxError"
    by (simp add: regex_eval)
  have "\<exists>t \<in> set ?ws. prerelease (strip_v (name t)) \<noteq> None"
    by (simp add: semver_eval)
  with c getLatestPrereleaseTag_first_match [of fragment_RegExp "''(''" _ ?ws strip_v SyntaxError]
  have d: "getLatestPrereleaseTag fragment_RegExp ?ws ''('' strip_v = Inl SyntaxError"
    by blast
  from cf pl a b c d show ?thesis
    by blast
qed

text \<open>
  Claim C6 as stated fails for an identifier that is not a regular expression: with a
  prerelease tag in the list, the identifier \<open>(\<close> makes \<open>match\<close> throw a
  \<open>SyntaxError\<close>, so nothing is returned.
\<close>

theorem getLatestPrereleaseTag_throws_counterexample:
  "prerelease (strip_v (name (sample_tag ''v2.0.0-beta.1''))) \<noteq> None
   \<and> compile ''('' = Inl Invalid
   \<and> getLatestPrereleaseTag fragment_RegExp [sample_tag ''v2.0.0-beta.1''] ''('' strip_v =
       Inl SyntaxError"
  by (simp add: semver_eval regex_eval getLatestPrereleaseTag_def)

text \<open>The same call throws with every constructor that conforms to the fragment.\<close>

lemma getLatestPrereleaseTag_throws_conforming:
  assumes "conforms RegExp"
  shows "getLatestPrereleaseTag RegExp [sample_tag ''v2.0.0-beta.1''] ''('' strip_v = Inl SyntaxError"
proof -
  have "compile ''('' = Inl Invalid"
    by (simp add: regex_eval)
  with assms have "RegExp ''('' = Inl SyntaxError"
    by (rule conforms_invalid)
  then show ?thesis
    by (simp add: semver_eval getLatestPrereleaseTag_def)
qed

text \<open>
  The list is scanned in the order given, without sorting: on the tags of the example
  in the order \<open>v2.0.0, v2.0.0-beta.1, v2.0.0-beta.2, v1.0.0\<close> the result is
  \<open>v2.0.0-beta.1\<close>.
\<close>

lemma getLatestPrereleaseTag_list_order:
  assumes "conforms RegExp"
  shows "getLatestPrereleaseTag RegExp
     [sample_tag ''v2.0.0'', sample_tag ''v2.0.0-beta.1'', sample_tag ''v2.0.0-beta.2'',
      sample_tag ''v1.0.0'']
     ''beta'' strip_v = Inr (Some (sample_tag ''v2.0.0-beta.1''))"
proof -
  have "compile ''beta'' \<noteq> Inl Outside"
    by (simp add: regex_eval)
  with assms have "RegExp ''beta'' = fragment_RegExp ''beta''"
    by (rule conforms_fragment_eq)
  then have "RegExp ''beta'' = Inr (re_test (lits Epsilon ''beta''))"
    by (simp add: fragment_RegExp_def compile_plain plain_def)
  then show ?thesis
    by (simp add: getLatestPrereleaseTag_compiled semver_eval re_test_lits
          Cons_eq_append_conv append_eq_Cons_conv)
qed

text \<open>
  Claim C9, amended. The first two parts hold for every constructor of expressions.
  When the constructor accepts the pattern of every scope, \<open>getScopedCommits\<close> keeps
  exactly the commits whose message is matched by the expression of at least one scope,
  in their order. When it rejects the pattern of the first scope and there is a commit,
  the call throws the error of the constructor. A constructor that conforms to the
  fragment accepts the patterns of scopes of plain characters, and a message matches
  exactly when it is one of the listed commit types, the scope in parentheses, a colon,
  a space and at least one word character or space. With such a constructor, for the
  three commits of the spec and the scope \<open>api\<close> only the first is kept; the scope is
  interpolated as it is: the scope \<open>.*\<close> keeps the commits of every scope.
\<close>

theorem getScopedCommits_keeps_matching:
  "((\<forall>scope \<in> set scopes. \<exists>re. RegExp (scope_pattern scope) = Inr re) \<longrightarrow>
      getScopedCommits RegExp commits scopes =
        Inr (filter (\<lambda>c. \<exists>scope \<in> set scopes. matches RegExp (scope_pattern scope) (message c))
               commits))
   \<and> (RegExp (scope_pattern first) = Inl e \<longrightarrow>
        getScopedCommits RegExp (c # commits) (first # others) = Inl e)
   \<and> (conforms RegExp \<and> (\<forall>scope \<in> set scopes. list_all plain scope) \<longrightarrow>
      getScopedCommits RegExp commits scopes =
        Inr (filter (\<lambda>c. \<exists>scope \<in> set scopes. \<exists>t \<in> set commit_types. \<exists>ch rest.
                      message c = t @ ''('' @ scope @ ''): '' @ ch # rest
                      \<and> (is_word ch \<or> ch = CHR '' '')) commits))
   \<and> (conforms RegExp \<longrightarrow>
        getScopedCommits RegExp
          [\<lparr>message = ''feat(api): x'', hash = h1\<rparr>, \<lparr>message = ''fix(web): y'', hash = h2\<rparr>,
           \<lparr>message = ''chore: z'', hash = h3\<rparr>] [''api''] =
         Inr [\<lparr>message = ''feat(api): x'', hash = h1\<rparr>]
      \<and> getScopedCommits RegExp
          [\<lparr>message = ''feat(api): x'', hash = h1\<rparr>, \<lparr>message = ''fix(web): y'', hash = h2\<rparr>,
           \<lparr>message = ''chore: z'', hash = h3\<rparr>] [''.*''] =
         Inr [\<lparr>message = ''feat(api): x'', hash = h1\<rparr>, \<lparr>message = ''fix(web): y'', hash = h2\<rparr>])"
proof (intro conjI impI)
  assume "\<forall>scope \<in> set scopes. \<exists>re. RegExp (scope_pattern scope) = Inr re"
  then show "getScopedCommits RegExp commits scopes =
        Inr (filter (\<lambda>c. \<exists>scope \<in> set scopes. matches RegExp (scope_pattern scope) (message c))
               commits)"
    by (rule getScopedCommits_compiled)
next
  assume "RegExp (scope_pattern first) = Inl e"
  then show "getScopedCommits RegExp (c # commits) (first # others) = Inl e"
    by simp
next
  assume a: "conforms RegExp \<and> (\<forall>scope \<in> set scopes. list_all plain scope)"
  then have cf: "conforms RegExp" and plain: "\<forall>scope \<in> set scopes. list_all plain scope"
    by simp_all
  have "\<forall>scope \<in> set scopes. \<exists>re. RegExp (scope_pattern scope) = Inr re"
    using cf plain by (simp add: conforms_compiled [OF _ compile_scope_pattern])
  then have g: "getScopedCommits RegExp commits scopes =
        Inr (filter (\<lambda>c. \<exists>scope \<in> set scopes. matches RegExp (scope_pattern scope) (message c))
               commits)"
    by (rule getScopedCommits_compiled)
  have eq: "(\<lambda>c. \<exists>scope \<in> set scopes. matches RegExp (scope_pattern scope) (message c)) =
      (\<lambda>c. \<exists>scope \<in> set scopes. \<exists>t \<in> set commit_types. \<exists>ch rest.
                      message c = t @ ''('' @ scope @ ''): '' @ ch # rest
                      \<and> (is_word ch \<or> ch = CHR '' ''))"
    using plain by (intro ext bex_cong refl) (simp add: matches_plain_scope [OF cf])
  from g show "getScopedCommits RegExp commits scopes =
        Inr (filter (\<lambda>c. \<exists>scope \<in> set scopes. \<exists>t \<in> set commit_types. \<exists>ch rest.
                      message c = t @ ''('' @ scope @ ''): '' @ ch # rest
                      \<and> (is_word ch \<or> ch = CHR '' '')) commits)"
    unfolding eq .
next
  let ?cs = "[\<lparr>message = ''feat(api): x'', hash = h1\<rparr>, \<lparr>message = ''fix(web): y'', hash = h2\<rparr>,
           \<lparr>message = ''chore: z'', hash = h3\<rparr>]"
  assume cf: "conforms RegExp"
  have "\<forall>scope \<in> set [''api'']. compile (scope_pattern scope) \<noteq> Inl Outside"
    by (simp add: regex_eval)
  with cf have "getScopedCommits RegExp ?cs [''api''] = getScopedCommits fragment_RegExp ?cs [''api'']"
    by (rule getScopedCommits_conforming)
  also have "\<dots> = Inr [\<lparr>message = ''feat(api): x'', hash = h1\<rparr>]"
    by (simp add: regex_eval)
  finally show "getScopedCommits RegExp ?cs [''api''] = Inr [\<lparr>message = ''feat(api): x'', hash = h1\<rparr>]" .
  have "\<forall>scope \<in> set [''.*'']. compile (scope_pattern scope) \<noteq> Inl Outside"
    by (simp add: regex_eval)
  with cf have "getScopedCommits RegExp ?cs [''.*''] = getScopedCommits fragment_RegExp ?cs [''.*'']"
    by (rule getScopedCommits_conforming)
  also have "\<dots> = Inr [\<lparr>message = ''feat(api): x'', hash = h1\<rparr>, \<lparr>message = ''fix(web): y'', hash = h2\<rparr>]"
    by (simp add: regex_eval)
  finally show "getScopedCommits RegExp ?cs [''.*''] =
      Inr [\<lparr>message = ''feat(api): x'', hash = h1\<rparr>, \<lparr>message = ''fix(web): y'', hash = h2\<rparr>]" .
qed

theorem getScopedCommits_keeps_matching_witness:
  "conforms fragment_RegExp \<and> list_all plain ''web'' \<and> list_all plain ''api''
   \<and> getScopedCommits fragment_RegExp
        [\<lparr>message = ''feat(api): x'', hash = ''1''\<rparr>, \<lparr>message = ''fix(web): y'', hash = ''2''\<rparr>,
         \<lparr>message = ''chore: z'', hash = ''3''\<rparr>, \<lparr>message = ''feat(api)!: w'', hash = ''4''\<rparr>]
        [''web'', ''api''] =
       Inr [\<lparr>message = ''feat(api): x'', hash = ''1''\<rparr>, \<lparr>message = ''fix(web): y'', hash = ''2''\<rparr>]
   \<and> getScopedCommits fragment_RegExp
        [\<lparr>message = ''feat(api): x'', hash = ''1''\<rparr>, \<lparr>message = ''fix(web): y'', hash = ''2''\<rparr>,
         \<lparr>message = ''chore: z'', hash = ''3''\<rparr>] [''api''] =
       Inr [\<lparr>message = ''feat(api): x'', hash = ''1''\<rparr>]
   \<and> fragment_RegExp (scope_pattern ''[z-a]'') = Inl SyntaxError
   \<and> getScopedCommits fragment_RegExp
        [\<lparr>message = ''feat(api): x'', hash = ''1''\<rparr>, \<lparr>message = ''fix(web): y'', hash = ''2''\<rparr>]
        [''[z-a]'', ''api''] = Inl SyntaxError"
proof -
  let ?cs = "[\<lparr>message = ''feat(api): x'', hash = ''1''\<rparr>, \<lparr>message = ''fix(web): y'', hash = ''2''\<rparr>,
         \<lparr>message = ''chore: z'', hash = ''3''\<rparr>, \<lparr>message = ''feat(api)!: w'', hash = ''4''\<rparr>]"
  let ?P = "\<lambda>c. \<exists>scope \<in> set [''web'', ''api'']. \<exists>t \<in> set commit_types. \<exists>ch rest.
                      message c = t @ ''('' @ scope @ ''): '' @ ch # rest
                      \<and> (is_word ch \<or> ch = CHR '' '')"
  have cf: "conforms fragment_RegExp"
    by (rule conforms_fragment)
  have p: "list_all plain ''web''" "list_all plain ''api''"
    by (simp_all add: plain_def)
  then have "\<forall>scope \<in> set [''web'', ''api'']. list_all plain scope"
    by simp
  with cf getScopedCommits_keeps_matching [of "[''web'', ''api'']" fragment_RegExp ?cs]
  have "getScopedCommits fragment_RegExp ?cs [''web'', ''api''] = Inr (filter ?P ?cs)"
    by blast
  also have "filter ?P ?cs =
      [\<lparr>message = ''feat(api): x'', hash = ''1''\<rparr>, \<lparr>message = ''fix(web): y'', hash = ''2''\<rparr>]"
    by (simp add: commit_types_def is_word_def)
  finally have a: "getScopedCommits fragment_RegExp ?cs [''web'', ''api''] =
      Inr [\<lparr>message = ''feat(api): x'', hash = ''1''\<rparr>, \<lparr>message = ''fix(web): y'', hash = ''2''\<rparr>]" .
  from cf getScopedCommits_keeps_matching [where RegExp = fragment_RegExp and ?h1.0 = "''1''"
      and ?h2.0 = "''2''" and ?h3.0 = "''3''"]
  have b: "getScopedCommits fragment_RegExp
        [\<lparr>message = ''feat(api): x'', hash = ''1''\<rparr>, \<lparr>message = ''fix(web): y'', hash = ''2''\<rparr>,
         \<lparr>message = ''chore: z'', hash = ''3''\<rparr>] [''api''] =
       Inr [\<lparr>message = ''feat(api): x'', hash = ''1''\<rparr>]"
    by blast
  have c: "fragment_RegExp (scope_pattern ''[z-a]'') = Inl SyntaxError"
    by (simp add: regex_eval)
  with getScopedCommits_keeps_matching [where RegExp = fragment_RegExp and first = "''[z-a]''"
      and e = SyntaxError and c = "\<lparr>message = ''feat(api): x'', hash = ''1''\<rparr>"
      and commits = "[\<lparr>message = ''fix(web): y'', hash = ''2''\<rparr>]" and others = "[''api'']"]
  have d: "getScopedCommits fragment_RegExp
        [\<lparr>message = ''feat(api): x'', hash = ''1''\<rparr>, \<lparr>message = ''fix(web): y'', hash = ''2''\<rparr>]
        [''[z-a]'', ''api''] = Inl SyntaxError"
    by blast
  from cf p a b c d show ?thesis
    by blast
qed

text \<open>
  Claim C9 as stated fails for a scope that makes the pattern invalid: with the scope
  \<open>(\<close> the constructor throws a \<open>SyntaxError\<close> at the first commit tested.
\<close>

theorem getScopedCommits_throws_counterexample:
  "compile (scope_pattern ''('') = Inl Invalid
   \<and> getScopedCommits fragment_RegExp [\<lparr>message = ''feat(api): x'', hash = ''1''\<rparr>] [''(''] =
       Inl SyntaxError"
  by (simp add: regex_eval)

text \<open>The same call throws with every constructor that conforms to the fragment.\<close>

lemma getScopedCommits_throws_conforming:
  assumes "conforms RegExp"
  shows "getScopedCommits RegExp [\<lparr>message = ''feat(api): x'', hash = ''1''\<rparr>] [''(''] =
           Inl SyntaxError"
proof -
  have "compile (scope_pattern ''('') = Inl Invalid"
    by (simp add: regex_eval)
  with assms have "RegExp (scope_pattern ''('') = Inl SyntaxError"
    by (rule conforms_invalid)
  then show ?thesis
    by simp
qed

end
